theory Spec2Isabelle
  imports Main "HOL-Library.Word"
begin

unbundle bit_operations_syntax

chapter \<open>A shallow embedding of the libtorrent core\<close>

text \<open>
  The theory embeds the parts of the library that the specification makes claims about:
  the socket stream primitive (\<^verbatim>\<open>src/net/socket_stream.cc\<close>), the tracker list
  (\<^verbatim>\<open>src/torrent/tracker_list.cc\<close>), the UDP and HTTP tracker transports
  (\<^verbatim>\<open>src/tracker/tracker_udp.cc\<close>, \<^verbatim>\<open>src/tracker/tracker_http.cc\<close>), the resource
  manager (\<^verbatim>\<open>src/torrent/download/resource_manager.cc\<close>) and the transfer list
  (\<^verbatim>\<open>src/torrent/data/transfer_list.cc\<close>).

  Conventions. A C++ exception is a value of type \<open>error\<close>; a function that can throw
  returns the state it had reached when it threw together with the exception, because
  the object outlives the exception. Fixed-width integers are words. Pointers into a
  vector are indices into the list that models it, the null pointer is \<open>None\<close>.
\<close>

section \<open>Exceptions\<close>

datatype error =
    internal_error
  | input_error
  | out_of_range
  | close_connection
  | blocked_connection
  | connection_error int
  | undefined_behaviour

section \<open>SocketStream\<close>

text \<open>
  \<^verbatim>\<open>read_stream\<close> and \<^verbatim>\<open>write_stream\<close> are the primitives of the socket; they return an
  \<^verbatim>\<open>int\<close> and leave the error number in \<^verbatim>\<open>errno\<close>. The socket is modelled by the script of
  what its primitive answers at the k-th call (the returned \<^verbatim>\<open>int\<close> and the \<^verbatim>\<open>errno\<close> it
  leaves) and by the number of calls made so far.
\<close>

record socket_stream =
  script :: "nat \<Rightarrow> 32 word \<times> int"
  calls :: nat

definition read_stream :: "socket_stream \<Rightarrow> (32 word \<times> int) \<times> socket_stream" where
  "read_stream s = (script s (calls s), s\<lparr>calls := Suc (calls s)\<rparr>)"

definition write_stream :: "socket_stream \<Rightarrow> (32 word \<times> int) \<times> socket_stream" where
  "write_stream s = (script s (calls s), s\<lparr>calls := Suc (calls s)\<rparr>)"

text \<open>
  The three classes of \<^verbatim>\<open>rak::error_number\<close> (\<^verbatim>\<open>rak/error_number.h\<close> is not part of the
  sources): they are parameters of the model.
\<close>

record error_number =
  is_blocked_momentary :: "int \<Rightarrow> bool"
  is_closed :: "int \<Rightarrow> bool"
  is_blocked_prolonged :: "int \<Rightarrow> bool"

definition stream_throws :: "error_number \<Rightarrow> 32 word \<times> int \<Rightarrow> error + 32 word" where
  "stream_throws en re =
     (let r = fst re; errno = snd re in
      if r = 0 then Inl close_connection
      else if sint r < 0 then
        (if is_blocked_momentary en errno then Inr 0
         else if is_closed en errno then Inl close_connection
         else if is_blocked_prolonged en errno then Inl blocked_connection
         else Inl (connection_error errno))
      else Inr r)"

definition read_stream_throws ::
  "error_number \<Rightarrow> socket_stream \<Rightarrow> (error + 32 word) \<times> socket_stream" where
  "read_stream_throws en s = (let (re, s') = read_stream s in (stream_throws en re, s'))"

definition write_stream_throws ::
  "error_number \<Rightarrow> socket_stream \<Rightarrow> (error + 32 word) \<times> socket_stream" where
  "write_stream_throws en s = (let (re, s') = write_stream s in (stream_throws en re, s'))"

section \<open>TrackerList\<close>

text \<open>
  \<^verbatim>\<open>find_next_to_request\<close> reads four things of a tracker: \<^verbatim>\<open>can_request_state()\<close>,
  \<^verbatim>\<open>failed_counter()\<close>, \<^verbatim>\<open>failed_time_next()\<close> and \<^verbatim>\<open>success_time_next()\<close>. The class
  \<^verbatim>\<open>Tracker\<close> is not part of the sources, so the model of a tracker holds what these
  four accessors return (all \<^verbatim>\<open>uint32_t\<close>, the first a \<^verbatim>\<open>bool\<close>).
\<close>

record tracker =
  can_request_state :: bool
  failed_counter :: "32 word"
  failed_time_next :: "32 word"
  success_time_next :: "32 word"

text \<open>
  An iterator of the list is a position; \<^verbatim>\<open>end()\<close> is the length of the list.
  \<^verbatim>\<open>std::find_if(itr, end(), pred)\<close>:
\<close>

function find_if :: "('a \<Rightarrow> bool) \<Rightarrow> 'a list \<Rightarrow> nat \<Rightarrow> nat" where
  "find_if p xs i =
     (if i < length xs then (if p (xs ! i) then i else find_if p xs (Suc i)) else length xs)"
  by pat_completeness auto
termination
  by (relation "measure (\<lambda>(p, xs, i). length xs - i)") auto

declare find_if.simps [simp del]

text \<open>
  The loop \<^verbatim>\<open>while (++itr != end())\<close> of \<^verbatim>\<open>find_next_to_request\<close>; \<open>itr\<close> is the position
  before the increment.
\<close>

function find_next_loop :: "tracker list \<Rightarrow> nat \<Rightarrow> nat \<Rightarrow> nat" where
  "find_next_loop ts preferred itr =
     (if Suc itr < length ts then
        (let t = ts ! Suc itr in
         if \<not> can_request_state t then find_next_loop ts preferred (Suc itr)
         else if failed_counter t \<noteq> 0 then
           (if failed_time_next t < failed_time_next (ts ! preferred)
            then find_next_loop ts (Suc itr) (Suc itr)
            else find_next_loop ts preferred (Suc itr))
         else
           (if success_time_next t < failed_time_next (ts ! preferred)
            then Suc itr else preferred))
      else preferred)"
  by pat_completeness auto
termination
  by (relation "measure (\<lambda>(ts, preferred, itr). length ts - itr)") auto

declare find_next_loop.simps [simp del]

definition find_next_to_request :: "tracker list \<Rightarrow> nat \<Rightarrow> nat" where
  "find_next_to_request ts itr =
     (let preferred = find_if can_request_state ts itr in
      if preferred = length ts \<or> failed_counter (ts ! preferred) = 0 then preferred
      else find_next_loop ts preferred preferred)"

text \<open>
  The same loop on the list of the positions still to visit that can be requested (an
  auxiliary form, used to relate the loop with the rule below).
\<close>

fun find_next_on :: "tracker list \<Rightarrow> nat \<Rightarrow> nat list \<Rightarrow> nat" where
  "find_next_on ts preferred [] = preferred"
| "find_next_on ts preferred (i # is) =
     (if failed_counter (ts ! i) \<noteq> 0 then
        find_next_on ts
          (if failed_time_next (ts ! i) < failed_time_next (ts ! preferred) then i else preferred) is
      else if success_time_next (ts ! i) < failed_time_next (ts ! preferred) then i
      else preferred)"

subsection \<open>The selection rule\<close>

text \<open>
  Both forms of the rule below are stated on the positions from \<open>itr\<close> on whose tracker
  can be requested, in the order of the list.
\<close>

definition requestable_from :: "tracker list \<Rightarrow> nat \<Rightarrow> nat list" where
  "requestable_from ts itr = filter (\<lambda>i. can_request_state (ts ! i)) [itr ..< length ts]"

definition smallest_failed_time_next :: "tracker list \<Rightarrow> nat list \<Rightarrow> 32 word" where
  "smallest_failed_time_next ts candidates =
     Min (set (map (\<lambda>i. failed_time_next (ts ! i)) candidates))"

definition tentative_choice :: "tracker list \<Rightarrow> nat list \<Rightarrow> nat" where
  "tentative_choice ts candidates =
     hd (filter (\<lambda>i. failed_time_next (ts ! i) = smallest_failed_time_next ts candidates)
           candidates)"

text \<open>
  The rule in the words of the specification, which walks from \<open>itr\<close> to the end. It is
  a condition on the result \<open>r\<close>. If no tracker from \<open>itr\<close> on can be requested, \<open>r\<close> is
  \<^verbatim>\<open>end()\<close>. If the first that can be requested has not failed, \<open>r\<close> is that one. Otherwise
  \<open>r\<close> is a failing tracker whose \<^verbatim>\<open>failed_time_next\<close> is the smallest among all the
  failing trackers from \<open>itr\<close> on that can be requested (the tentative choice), or \<open>r\<close> is
  a tracker after the first one that can be requested, has not failed and has a
  \<^verbatim>\<open>success_time_next\<close> less than the tentative choice's \<^verbatim>\<open>failed_time_next\<close>. Where the
  words leave a choice the condition allows each: any of several failing trackers with
  the same smallest \<^verbatim>\<open>failed_time_next\<close> may be the tentative choice, and when trackers
  fulfil the condition to supersede, each of them and the tentative choice may be the
  result.
\<close>

definition failing_from :: "tracker list \<Rightarrow> nat \<Rightarrow> nat list" where
  "failing_from ts itr = filter (\<lambda>i. failed_counter (ts ! i) \<noteq> 0) (requestable_from ts itr)"

definition spec_next_to_request :: "tracker list \<Rightarrow> nat \<Rightarrow> nat \<Rightarrow> bool" where
  "spec_next_to_request ts itr r =
     (case requestable_from ts itr of
        [] \<Rightarrow> r = length ts
      | first # rest \<Rightarrow>
          if failed_counter (ts ! first) = 0 then r = first
          else
            (r \<in> set (failing_from ts itr)
             \<and> failed_time_next (ts ! r) = smallest_failed_time_next ts (failing_from ts itr))
            \<or> (r \<in> set rest \<and> failed_counter (ts ! r) = 0
                \<and> success_time_next (ts ! r) < smallest_failed_time_next ts (failing_from ts itr)))"

text \<open>
  The rule with the end of the walk that the loop has: the walk ends at the first
  tracker after the first one that can be requested and has not failed, and no tracker
  after that one is looked at. If there is no tracker to request the result is
  \<^verbatim>\<open>end()\<close>. If the first has not failed it is the result. Otherwise the candidates are
  the first one and the failing ones after it that come before the first tracker that
  has not failed: the tentative choice is the earliest candidate whose
  \<^verbatim>\<open>failed_time_next\<close> is the smallest of all candidates, and the first tracker that has
  not failed, if there is one, supersedes it if and only if its \<^verbatim>\<open>success_time_next\<close> is
  less than the tentative choice's \<^verbatim>\<open>failed_time_next\<close>.
\<close>

definition next_to_request_rule :: "tracker list \<Rightarrow> nat \<Rightarrow> nat" where
  "next_to_request_rule ts itr =
     (case requestable_from ts itr of
        [] \<Rightarrow> length ts
      | first # rest \<Rightarrow>
          if failed_counter (ts ! first) = 0 then first
          else
            (let failing = takeWhile (\<lambda>i. failed_counter (ts ! i) \<noteq> 0) rest;
                 tentative = tentative_choice ts (first # failing)
             in case dropWhile (\<lambda>i. failed_counter (ts ! i) \<noteq> 0) rest of
                  [] \<Rightarrow> tentative
                | healthy # _ \<Rightarrow>
                    if success_time_next (ts ! healthy) < failed_time_next (ts ! tentative)
                    then healthy else tentative))"

section \<open>TrackerUdp: the announce request\<close>

type_synonym byte = "8 word"

text \<open>
  \<^verbatim>\<open>HashString\<close> (the type of \<^verbatim>\<open>info->hash()\<close> and \<^verbatim>\<open>info->local_id()\<close>) is an array of 20
  characters.
\<close>

typedef hash_string = "{bs :: byte list. length bs = 20}"
  by (rule exI [of _ "replicate 20 0"]) simp

text \<open>The hash string of 20 given bytes (and of zeros, for any other number of bytes).\<close>

definition hash_string_of :: "byte list \<Rightarrow> hash_string" where
  "hash_string_of bs = Abs_hash_string (if length bs = 20 then bs else replicate 20 0)"

text \<open>
  Modelled from the spec: the write buffer (\<^verbatim>\<open>ProtocolBuffer<512>\<close>, declared in
  \<^verbatim>\<open>net/protocol_buffer.h\<close>) is not part of the sources. Following the specification
  ("all multi-byte integers network byte order"), \<^verbatim>\<open>write_16\<close>, \<^verbatim>\<open>write_32\<close> and
  \<^verbatim>\<open>write_64\<close> append the 2, 4 and 8 bytes of the value, most significant byte first,
  \<^verbatim>\<open>write_range\<close> appends the bytes of the range, \<^verbatim>\<open>reset\<close> empties the buffer and
  \<^verbatim>\<open>size_end\<close> is the number of bytes written. \<^verbatim>\<open>write_32_n\<close> appends a value that is
  already in network byte order as it lies in memory; such a value is modelled by the
  word whose bytes, most significant first, are its bytes in memory.
\<close>

definition write_16 :: "byte list \<Rightarrow> 16 word \<Rightarrow> byte list" where
  "write_16 buf v = buf @ [ucast (drop_bit 8 v), ucast v]"

definition write_32 :: "byte list \<Rightarrow> 32 word \<Rightarrow> byte list" where
  "write_32 buf v =
     buf @ [ucast (drop_bit 24 v), ucast (drop_bit 16 v), ucast (drop_bit 8 v), ucast v]"

definition write_32_n :: "byte list \<Rightarrow> 32 word \<Rightarrow> byte list" where
  "write_32_n buf v =
     buf @ [ucast (drop_bit 24 v), ucast (drop_bit 16 v), ucast (drop_bit 8 v), ucast v]"

definition write_64 :: "byte list \<Rightarrow> 64 word \<Rightarrow> byte list" where
  "write_64 buf v =
     buf @ [ucast (drop_bit 56 v), ucast (drop_bit 48 v), ucast (drop_bit 40 v),
            ucast (drop_bit 32 v), ucast (drop_bit 24 v), ucast (drop_bit 16 v),
            ucast (drop_bit 8 v), ucast v]"

definition write_range :: "byte list \<Rightarrow> byte list \<Rightarrow> byte list" where
  "write_range buf bs = buf @ bs"

definition size_end :: "byte list \<Rightarrow> nat" where
  "size_end buf = length buf"

text \<open>What \<^verbatim>\<open>prepare_announce_input\<close> reads of the \<^verbatim>\<open>DownloadInfo\<close>.\<close>

record download_info =
  hash :: hash_string
  local_id :: hash_string
  uploaded_adjusted :: "64 word"
  completed_adjusted :: "64 word"
  slot_left :: "64 word"

text \<open>
  The local address of the connection manager: its family and, for \<^verbatim>\<open>af_inet\<close>, the
  result of \<^verbatim>\<open>sa_inet()->address_n()\<close>.
\<close>

datatype socket_address = af_inet "32 word" | af_inet6 | af_unspec

text \<open>
  What the function reads of its collaborators: the next \<^verbatim>\<open>random_uint32()\<close>, the local
  address and listen port of the connection manager, and the key and numwant of the
  tracker list.
\<close>

record announce_env =
  random_uint32 :: "32 word"
  local_address :: socket_address
  key :: "32 word"
  numwant :: "32 word"
  listen_port :: "16 word"

record tracker_udp =
  m_connectionId :: "64 word"
  m_action :: "32 word"
  m_transactionId :: "32 word"
  m_sendState :: "32 word"
  m_writeBuffer :: "byte list"

definition prepare_announce_input ::
  "download_info \<Rightarrow> announce_env \<Rightarrow> tracker_udp \<Rightarrow> error option \<times> tracker_udp" where
  "prepare_announce_input info env t =
     (let b = [];
          b = write_64 b (m_connectionId t);
          t = t\<lparr>m_action := 1\<rparr>;
          b = write_32 b (m_action t);
          t = t\<lparr>m_transactionId := random_uint32 env\<rparr>;
          b = write_32 b (m_transactionId t);
          b = write_range b (Rep_hash_string (hash info));
          b = write_range b (Rep_hash_string (local_id info));
          b = write_64 b (completed_adjusted info);
          b = write_64 b (slot_left info);
          b = write_64 b (uploaded_adjusted info);
          b = write_32 b (m_sendState t);
          local_addr = (case local_address env of af_inet a \<Rightarrow> a | _ \<Rightarrow> 0);
          b = write_32_n b local_addr;
          b = write_32 b (key env);
          b = write_32 b (numwant env);
          b = write_16 b (listen_port env);
          t = t\<lparr>m_writeBuffer := b\<rparr>
      in if size_end b \<noteq> 98 then (Some internal_error, t) else (None, t))"

subsection \<open>Reading the request back\<close>

text \<open>
  The field of \<open>n\<close> bytes at an offset of a datagram, and the number that a sequence of
  bytes denotes in network byte order.
\<close>

definition field :: "byte list \<Rightarrow> nat \<Rightarrow> nat \<Rightarrow> byte list" where
  "field buf offset n = take n (drop offset buf)"

definition be_decode :: "byte list \<Rightarrow> nat" where
  "be_decode bs = foldl (\<lambda>a b. a * 256 + unat b) 0 bs"

section \<open>TrackerHttp: a successful announce response\<close>

text \<open>
  The bencoded \<^verbatim>\<open>Object\<close> (\<^verbatim>\<open>torrent/object.h\<close> is not part of the sources): an integer
  value, a string, a list or a map. \<^verbatim>\<open>has_key_value\<close> and \<^verbatim>\<open>has_key_string\<close> hold when the
  key is present with a value of that type. \<^verbatim>\<open>get_key_value\<close> and \<^verbatim>\<open>get_key_string\<close> are
  called only where the matching test has succeeded.
\<close>

datatype object =
    OValue int
  | OString string
  | OList "object list"
  | OMap "(string \<times> object) list"

fun get_key :: "object \<Rightarrow> string \<Rightarrow> object option" where
  "get_key (OMap kvs) k = map_of kvs k"
| "get_key _ k = None"

definition has_key :: "object \<Rightarrow> string \<Rightarrow> bool" where
  "has_key obj k = (get_key obj k \<noteq> None)"

definition has_key_value :: "object \<Rightarrow> string \<Rightarrow> bool" where
  "has_key_value obj k = (case get_key obj k of Some (OValue _) \<Rightarrow> True | _ \<Rightarrow> False)"

definition has_key_string :: "object \<Rightarrow> string \<Rightarrow> bool" where
  "has_key_string obj k = (case get_key obj k of Some (OString _) \<Rightarrow> True | _ \<Rightarrow> False)"

definition get_key_value :: "object \<Rightarrow> string \<Rightarrow> int" where
  "get_key_value obj k = (case get_key obj k of Some (OValue v) \<Rightarrow> v | _ \<Rightarrow> 0)"

definition get_key_string :: "object \<Rightarrow> string \<Rightarrow> string" where
  "get_key_string obj k = (case get_key obj k of Some (OString s) \<Rightarrow> s | _ \<Rightarrow> [])"

text \<open>The fields of the tracker that the response handler writes.\<close>

record tracker_http =
  m_normal_interval :: int
  m_min_interval :: int
  m_tracker_id :: string
  m_scrape_complete :: "32 word"
  m_scrape_incomplete :: "32 word"
  m_scrape_downloaded :: "32 word"
  m_scrape_time_last :: "32 word"

text \<open>
  Modelled from the spec: \<^verbatim>\<open>Tracker::set_normal_interval\<close> and
  \<^verbatim>\<open>Tracker::set_min_interval\<close> are declared in \<^verbatim>\<open>torrent/tracker.h\<close>, which is not part of
  the sources. Following the specification ("set \<^verbatim>\<open>normal_interval\<close>", "\<^verbatim>\<open>min_interval\<close>")
  each stores its argument in the field it names.
\<close>

definition set_normal_interval :: "int \<Rightarrow> tracker_http \<Rightarrow> tracker_http" where
  "set_normal_interval v t = t\<lparr>m_normal_interval := v\<rparr>"

definition set_min_interval :: "int \<Rightarrow> tracker_http \<Rightarrow> tracker_http" where
  "set_min_interval v t = t\<lparr>m_min_interval := v\<rparr>"

text \<open>
  What the handler takes from outside: the constants \<^verbatim>\<open>default_normal_interval\<close> and
  \<^verbatim>\<open>default_min_interval\<close> (declared in \<^verbatim>\<open>torrent/tracker.h\<close>), \<^verbatim>\<open>cachedTime.seconds()\<close>, and
  the three parsers of \<^verbatim>\<open>AddressList\<close>, of which \<^verbatim>\<open>parse_address_normal\<close> can raise a
  \<^verbatim>\<open>bencode_error\<close> with a message.
\<close>

record 'a http_env =
  default_normal_interval :: int
  default_min_interval :: int
  cachedTime_seconds :: "32 word"
  parse_address_compact :: "string \<Rightarrow> 'a list"
  parse_address_normal :: "object list \<Rightarrow> string + 'a list"
  parse_address_compact_ipv6 :: "string \<Rightarrow> 'a list"

text \<open>How the handler ends: with a call of \<^verbatim>\<open>receive_failed\<close> or of \<^verbatim>\<open>receive_success\<close>.\<close>

datatype 'a http_outcome = receive_failed string | receive_success "'a list"

definition clamp_scrape :: "int \<Rightarrow> 32 word" where
  "clamp_scrape v = word_of_int (max v 0)"

definition process_success ::
  "'a http_env \<Rightarrow> object \<Rightarrow> tracker_http \<Rightarrow> 'a http_outcome \<times> tracker_http" where
  "process_success env obj t =
     (let t = (if has_key_value obj ''interval''
               then set_normal_interval (get_key_value obj ''interval'') t
               else set_normal_interval (default_normal_interval env) t);
          t = (if has_key_value obj ''min interval''
               then set_min_interval (get_key_value obj ''min interval'') t
               else set_normal_interval (default_min_interval env) t);
          t = (if has_key_string obj ''tracker id''
               then t\<lparr>m_tracker_id := get_key_string obj ''tracker id''\<rparr> else t);
          t = (if has_key_value obj ''complete'' \<and> has_key_value obj ''incomplete''
               then t\<lparr>m_scrape_complete := clamp_scrape (get_key_value obj ''complete''),
                      m_scrape_incomplete := clamp_scrape (get_key_value obj ''incomplete''),
                      m_scrape_time_last := cachedTime_seconds env\<rparr>
               else t);
          t = (if has_key_value obj ''downloaded''
               then t\<lparr>m_scrape_downloaded := clamp_scrape (get_key_value obj ''downloaded'')\<rparr>
               else t)
      in if \<not> has_key obj ''peers'' \<and> \<not> has_key obj ''peers6''
         then (receive_failed ''No peers returned'', t)
         else
           (case (case get_key obj ''peers'' of
                    Some (OString s) \<Rightarrow> Inr (parse_address_compact env s)
                  | Some (OList l) \<Rightarrow> parse_address_normal env l
                  | _ \<Rightarrow> Inr [])
            of Inl msg \<Rightarrow> (receive_failed msg, t)
             | Inr l \<Rightarrow>
                 (receive_success
                    (if has_key_string obj ''peers6''
                     then l @ parse_address_compact_ipv6 env (get_key_string obj ''peers6'')
                     else l), t)))"

section \<open>ResourceManager\<close>

text \<open>
  The manager is a vector of entries (its \<^verbatim>\<open>base_type\<close>) and a vector of choke groups (its
  \<^verbatim>\<open>choke_base_type\<close>). An entry holds a download (a pointer, here a number), its group and
  its priority, both \<^verbatim>\<open>uint16_t\<close>. A choke group holds its name and the two pointers
  \<^verbatim>\<open>first\<close> and \<^verbatim>\<open>last\<close> into the entry vector. A pointer into the entry vector is
  modelled by its offset from the start of the vector, in entries (an \<^verbatim>\<open>int\<close>, so that
  decrementing is exact), the null pointer by \<open>None\<close>; none of the functions below lets
  the vector reallocate between setting such a pointer and using it, except \<^verbatim>\<open>insert\<close>,
  which sets all of them again.

  The choke queues of a group and the peers that \<^verbatim>\<open>choke_queue::move_connections\<close> moves
  between them (\<^verbatim>\<open>torrent/download/choke_queue.h\<close> is not part of the sources) are left
  out: they do not touch the entry vector or the group pointers.
\<close>

record resource_manager_entry =
  m_download :: nat
  m_group :: "16 word"
  m_priority :: "16 word"

record choke_group =
  m_name :: string
  m_first :: "int option"
  m_last :: "int option"

record resource_manager =
  entries :: "resource_manager_entry list"
  groups :: "choke_group list"

text \<open>
  Modelled from the spec: the class \<^verbatim>\<open>choke_group\<close> (\<^verbatim>\<open>torrent/download/choke_group.h\<close>) is
  not part of the sources. A new group has both pointers null (the specification: "both
  null iff the whole sequence is empty"); \<^verbatim>\<open>inc_iterators\<close> and \<^verbatim>\<open>dec_iterators\<close> move
  both pointers by one entry. Arithmetic on a null pointer has no defined result in
  C++; the model leaves it null.
\<close>

definition new_choke_group :: choke_group where
  "new_choke_group = \<lparr>m_name = [], m_first = None, m_last = None\<rparr>"

definition ptr_add :: "int option \<Rightarrow> int \<Rightarrow> int option" where
  "ptr_add p d = map_option (\<lambda>i. i + d) p"

definition inc_iterators :: "choke_group \<Rightarrow> choke_group" where
  "inc_iterators g = g\<lparr>m_first := ptr_add (m_first g) 1, m_last := ptr_add (m_last g) 1\<rparr>"

definition dec_iterators :: "choke_group \<Rightarrow> choke_group" where
  "dec_iterators g = g\<lparr>m_first := ptr_add (m_first g) (- 1), m_last := ptr_add (m_last g) (- 1)\<rparr>"

text \<open>\<^verbatim>\<open>std::for_each(from, to, f)\<close> on the positions \<open>[from, to)\<close> of a vector.\<close>

definition for_each :: "nat \<Rightarrow> nat \<Rightarrow> ('a \<Rightarrow> 'a) \<Rightarrow> 'a list \<Rightarrow> 'a list" where
  "for_each from to f xs = take from xs @ map f (take (to - from) (drop from xs)) @ drop (max from to) xs"

definition find_group_end :: "resource_manager \<Rightarrow> 16 word \<Rightarrow> nat" where
  "find_group_end rm grp = find_if (\<lambda>v. grp < m_group v) (entries rm) 0"

definition vector_insert :: "nat \<Rightarrow> 'a \<Rightarrow> 'a list \<Rightarrow> 'a list" where
  "vector_insert pos x xs = take pos xs @ x # drop pos xs"

definition vector_erase :: "nat \<Rightarrow> 'a list \<Rightarrow> 'a list" where
  "vector_erase pos xs = take pos xs @ drop (Suc pos) xs"

text \<open>
  \<^verbatim>\<open>update_group_iterators\<close>: the loop over the groups, with the position \<open>entry_itr\<close> in
  the entry vector and the index \<open>gi\<close> of the group \<open>g\<close> being set.
\<close>

fun update_group_iterators_loop ::
  "resource_manager_entry list \<Rightarrow> nat \<Rightarrow> nat \<Rightarrow> choke_group list \<Rightarrow> choke_group list" where
  "update_group_iterators_loop es entry_itr gi [] = []"
| "update_group_iterators_loop es entry_itr gi (g # gs) =
     (let entry_itr' = find_if (\<lambda>v. int gi < uint (m_group v)) es entry_itr
      in g\<lparr>m_first := Some (int entry_itr), m_last := Some (int entry_itr')\<rparr>
         # update_group_iterators_loop es entry_itr' (Suc gi) gs)"

definition update_group_iterators :: "resource_manager \<Rightarrow> resource_manager" where
  "update_group_iterators rm =
     rm\<lparr>groups := update_group_iterators_loop (entries rm) 0 0 (groups rm)\<rparr>"

text \<open>
  \<^verbatim>\<open>insert\<close>. The entry is put into the vector before \<^verbatim>\<open>choke_base_type::at\<close> is called,
  which raises \<^verbatim>\<open>std::out_of_range\<close> for a group that does not exist. The result is the
  position of the new entry.
\<close>

definition insert_entry ::
  "resource_manager_entry \<Rightarrow> resource_manager \<Rightarrow> (error + nat) \<times> resource_manager" where
  "insert_entry entry rm =
     (let itr = find_group_end rm (m_group entry);
          rm = rm\<lparr>entries := vector_insert itr entry (entries rm)\<rparr>
      in if length (groups rm) \<le> unat (m_group entry) then (Inl out_of_range, rm)
         else (Inr itr, update_group_iterators rm))"

text \<open>The loops of \<^verbatim>\<open>validate_group_iterators\<close> for an empty and a non-empty entry vector.\<close>

fun validate_null :: "choke_group list \<Rightarrow> error option" where
  "validate_null [] = None"
| "validate_null (g # gs) =
     (if m_first g \<noteq> None \<or> m_last g \<noteq> None then Some internal_error else validate_null gs)"

fun validate_loop ::
  "resource_manager_entry list \<Rightarrow> nat \<Rightarrow> nat \<Rightarrow> choke_group list \<Rightarrow> error option" where
  "validate_loop es entry_itr gi [] = None"
| "validate_loop es entry_itr gi (g # gs) =
     (if m_first g \<noteq> Some (int entry_itr) then Some internal_error
      else
        (let entry_itr' = find_if (\<lambda>v. int gi < uint (m_group v)) es entry_itr
         in if m_last g \<noteq> Some (int entry_itr') then Some internal_error
            else validate_loop es entry_itr' (Suc gi) gs))"

definition validate_group_iterators :: "resource_manager \<Rightarrow> error option" where
  "validate_group_iterators rm =
     (if entries rm = [] then validate_null (groups rm)
      else validate_loop (entries rm) 0 0 (groups rm))"

definition set_null :: "choke_group \<Rightarrow> choke_group" where
  "set_null cg = cg\<lparr>m_first := None, m_last := None\<rparr>"

text \<open>
  \<^verbatim>\<open>erase\<close>. \<^verbatim>\<open>group_at\<close> raises \<^verbatim>\<open>input_error\<close> for a group that does not exist, before
  anything is changed.
\<close>

definition erase :: "nat \<Rightarrow> resource_manager \<Rightarrow> error option \<times> resource_manager" where
  "erase d rm =
     (let itr = find_if (\<lambda>e. d = m_download e) (entries rm) 0 in
      if itr = length (entries rm) then (Some internal_error, rm)
      else
        (let grp = unat (m_group (entries rm ! itr)) in
         if length (groups rm) \<le> grp then (Some input_error, rm)
         else
           (let gs = groups rm;
                gs = (if length (entries rm) = 1 then for_each grp (length gs) set_null gs
                      else
                        (let gs = gs[grp := (gs ! grp)\<lparr>m_last := ptr_add (m_last (gs ! grp)) (- 1)\<rparr>]
                         in for_each (Suc grp) (length gs) dec_iterators gs))
            in (None, rm\<lparr>groups := gs, entries := vector_erase itr (entries rm)\<rparr>))))"

text \<open>\<^verbatim>\<open>push_group\<close>; with a non-empty entry vector both pointers are set to its end.\<close>

definition push_group :: "string \<Rightarrow> resource_manager \<Rightarrow> error option \<times> resource_manager" where
  "push_group name rm =
     (if name = [] \<or> list_ex (\<lambda>g. name = m_name g) (groups rm) then (Some input_error, rm)
      else
        (let g = new_choke_group\<lparr>m_name := name\<rparr>;
             g = (if entries rm \<noteq> []
                  then g\<lparr>m_first := Some (int (length (entries rm))),
                         m_last := Some (int (length (entries rm)))\<rparr>
                  else g)
         in (None, rm\<lparr>groups := groups rm @ [g]\<rparr>)))"


definition set_group ::
  "nat \<Rightarrow> 16 word \<Rightarrow> resource_manager \<Rightarrow> error option \<times> resource_manager" where
  "set_group itr grp rm =
     (if length (entries rm) \<le> itr then (Some undefined_behaviour, rm)
      else if m_group (entries rm ! itr) = grp then (None, rm)
      else if length (groups rm) \<le> unat grp then (Some input_error, rm)
      else
        (let group_src = unat (m_group (entries rm ! itr));
             group_dest = unat grp;
             entry = (entries rm ! itr)\<lparr>m_group := grp\<rparr>;
             rm = rm\<lparr>entries := vector_erase itr (entries rm)\<rparr>;
             rm = rm\<lparr>entries := vector_insert (find_group_end rm (m_group entry)) entry (entries rm)\<rparr>;
             gs = groups rm
         in if length gs \<le> group_src then (Some undefined_behaviour, rm)
            else if group_dest < group_src then
              (let gs = gs[group_dest := (gs ! group_dest)\<lparr>m_last := ptr_add (m_last (gs ! group_dest)) 1\<rparr>];
                   gs = for_each (Suc group_dest) group_src inc_iterators gs;
                   gs = gs[group_src := (gs ! group_src)\<lparr>m_first := ptr_add (m_first (gs ! group_src)) 1\<rparr>]
               in (None, rm\<lparr>groups := gs\<rparr>))
            else
              (let gs = gs[group_src := (gs ! group_src)\<lparr>m_last := ptr_add (m_last (gs ! group_src)) (- 1)\<rparr>];
                   gs = for_each (Suc group_src) group_dest dec_iterators gs;
                   gs = gs[group_dest := (gs ! group_dest)\<lparr>m_first := ptr_add (m_first (gs ! group_dest)) (- 1)\<rparr>]
               in (None, rm\<lparr>groups := gs\<rparr>))))"


text \<open>
  Sequences of calls. The manager is still there after a call has raised, so a sequence
  goes on from the state the call left; \<open>run\<close> collects what each call raised.
\<close>

datatype manager_call =
    Push_group string
  | Insert resource_manager_entry
  | Erase nat
  | Set_group nat "16 word"

fun call :: "manager_call \<Rightarrow> resource_manager \<Rightarrow> error option \<times> resource_manager" where
  "call (Push_group name) rm = push_group name rm"
| "call (Insert entry) rm =
     (case insert_entry entry rm of
        (Inl e, rm') \<Rightarrow> (Some e, rm')
      | (Inr itr, rm') \<Rightarrow> (None, rm'))"
| "call (Erase d) rm = erase d rm"
| "call (Set_group itr grp) rm = set_group itr grp rm"

fun run :: "manager_call list \<Rightarrow> resource_manager \<Rightarrow> error option list \<times> resource_manager" where
  "run [] rm = ([], rm)"
| "run (c # cs) rm =
     (case call c rm of (e, rm') \<Rightarrow> (case run cs rm' of (es, rm'') \<Rightarrow> (e # es, rm'')))"

definition new_resource_manager :: resource_manager where
  "new_resource_manager = \<lparr>entries = [], groups = []\<rparr>"

subsection \<open>Where the entries of a group are\<close>

text \<open>
  \<open>range_start es g\<close> is the number of entries in groups before \<open>g\<close>. In a vector sorted by
  group the entries of the group \<open>g\<close> are those at the positions from
  \<open>range_start es g\<close> up to, and not including, \<open>range_start es (Suc g)\<close>. The pointers of
  the manager are exact when \<^verbatim>\<open>first\<close> and \<^verbatim>\<open>last\<close> of every group point to these two
  positions.
\<close>

definition group_of :: "resource_manager_entry \<Rightarrow> nat" where
  "group_of e = unat (m_group e)"

definition range_start :: "resource_manager_entry list \<Rightarrow> nat \<Rightarrow> nat" where
  "range_start es g = length (filter (\<lambda>e. group_of e < g) es)"

definition pointers_exact :: "resource_manager \<Rightarrow> bool" where
  "pointers_exact rm =
     list_all (\<lambda>g. m_first (groups rm ! g) = Some (int (range_start (entries rm) g))
                 \<and> m_last (groups rm ! g) = Some (int (range_start (entries rm) (Suc g))))
       [0 ..< length (groups rm)]"

text \<open>
  The invariant of the manager: the entries are sorted by group, every entry is in a
  group that exists, and the pointers are exact unless there is no entry.
\<close>

definition manager_invariant :: "resource_manager \<Rightarrow> bool" where
  "manager_invariant rm =
     (sorted (map group_of (entries rm))
      \<and> list_all (\<lambda>e. group_of e < length (groups rm)) (entries rm)
      \<and> (entries rm = [] \<or> pointers_exact rm))"

section \<open>TransferList\<close>

subsection \<open>Chunks, pieces, transfers, failed lists, blocks\<close>

type_synonym chunk = "byte list"

text \<open>
  Modelled from the spec: the class \<^verbatim>\<open>Chunk\<close> (\<^verbatim>\<open>data/chunk.h\<close>) is not part of the sources.
  Following the specification, \<^verbatim>\<open>compare_buffer\<close> compares the chunk bytes at
  \<open>[offset, offset + length)\<close> with a buffer, \<^verbatim>\<open>to_buffer\<close> copies them into a buffer and
  \<^verbatim>\<open>from_buffer\<close> copies a buffer back over them.
\<close>

definition compare_buffer :: "chunk \<Rightarrow> byte list \<Rightarrow> nat \<Rightarrow> nat \<Rightarrow> bool" where
  "compare_buffer c buf offset len = (take len (drop offset c) = take len buf)"

definition to_buffer :: "chunk \<Rightarrow> nat \<Rightarrow> nat \<Rightarrow> byte list" where
  "to_buffer c offset len = take len (drop offset c)"

definition from_buffer :: "chunk \<Rightarrow> byte list \<Rightarrow> nat \<Rightarrow> nat \<Rightarrow> chunk" where
  "from_buffer c buf offset len = take offset c @ take len buf @ drop (offset + len) c"

record piece =
  piece_index :: "32 word"
  piece_offset :: nat
  piece_length :: nat

text \<open>
  A transfer: the peer it comes from (a \<^verbatim>\<open>PeerInfo*\<close>, here a number, ordered as the
  pointers are) and its \<^verbatim>\<open>failed_index\<close>, where \<^verbatim>\<open>~uint32_t()\<close> stands for "none".
\<close>

record block_transfer =
  peer_info :: nat
  failed_index :: "32 word"

text \<open>
  Modelled from the spec: the class \<^verbatim>\<open>BlockFailed\<close> (\<^verbatim>\<open>torrent/data/block_failed.h\<close>) is not
  part of the sources. It is a vector of pairs of a buffer and a reference count, with
  the position \<^verbatim>\<open>current\<close>. Following the specification, \<^verbatim>\<open>max_element\<close> is the first entry
  with the greatest count (as \<^verbatim>\<open>std::max_element\<close> finds it) and \<^verbatim>\<open>reverse_max_element\<close>
  the last one (\<^verbatim>\<open>std::max_element\<close> on the reversed vector); the latter is \<open>None\<close> for
  \<^verbatim>\<open>rend()\<close>, and otherwise the position that \<^verbatim>\<open>base() - 1\<close> points to. The \<^verbatim>\<open>current\<close> of a
  new failed list is written by \<^verbatim>\<open>update_failed\<close> before anything reads it. The counts
  are \<^verbatim>\<open>uint32_t\<close>.
\<close>

record block_failed =
  fl_entries :: "(byte list \<times> 32 word) list"
  fl_current :: nat

definition new_block_failed :: block_failed where
  "new_block_failed = \<lparr>fl_entries = [], fl_current = 0\<rparr>"

fun max_scan :: "32 word list \<Rightarrow> nat \<Rightarrow> 32 word \<Rightarrow> nat \<Rightarrow> nat" where
  "max_scan [] largest v i = largest"
| "max_scan (x # xs) largest v i =
     (if v < x then max_scan xs i x (Suc i) else max_scan xs largest v (Suc i))"

definition max_element :: "block_failed \<Rightarrow> nat" where
  "max_element fl = (case map snd (fl_entries fl) of [] \<Rightarrow> 0 | x # xs \<Rightarrow> max_scan xs 0 x 1)"

definition reverse_max_element :: "block_failed \<Rightarrow> nat option" where
  "reverse_max_element fl =
     (case rev (map snd (fl_entries fl)) of
        [] \<Rightarrow> None
      | x # xs \<Rightarrow> Some (length (fl_entries fl) - 1 - max_scan xs 0 x 1))"

text \<open>
  A block: its piece, its transfers, the leader (a pointer to one of the transfers, here
  its position among them), the failed list (a pointer, null until the first failure)
  and whether it is finished.
\<close>

record block =
  blk_piece :: piece
  transfers :: "block_transfer list"
  leader :: "nat option"
  failed_list :: "block_failed option"
  is_finished :: bool

record block_list =
  index :: "32 word"
  failed :: "32 word"
  attempt :: "32 word"
  blocks :: "block list"

text \<open>
  What a call does to the outside: the slots it calls, and the call of
  \<^verbatim>\<open>BlockList::do_all_failed\<close>.
\<close>

datatype effect =
    slot_queued "32 word"
  | slot_completed "32 word"
  | slot_canceled "32 word"
  | slot_corrupt nat
  | called_do_all_failed "32 word"

record transfer_list =
  block_lists :: "block_list list"
  m_completedList :: "(int \<times> 32 word) list"
  m_succeededCount :: "32 word"
  m_failedCount :: "32 word"
  emitted :: "effect list"

definition find_tl :: "32 word \<Rightarrow> transfer_list \<Rightarrow> nat" where
  "find_tl idx tlist = find_if (\<lambda>b. idx = index b) (block_lists tlist) 0"

definition store_block_list :: "nat \<Rightarrow> block_list \<Rightarrow> transfer_list \<Rightarrow> transfer_list" where
  "store_block_list itr bl tlist = tlist\<lparr>block_lists := (block_lists tlist)[itr := bl]\<rparr>"

definition emit :: "effect list \<Rightarrow> transfer_list \<Rightarrow> transfer_list" where
  "emit es tlist = tlist\<lparr>emitted := emitted tlist @ es\<rparr>"

definition all_finished :: "block_list \<Rightarrow> bool" where
  "all_finished bl = (length (filter is_finished (blocks bl)) = length (blocks bl))"

subsection \<open>\<^verbatim>\<open>update_failed\<close>\<close>

text \<open>
  The body of the loop for one block; the result tells whether \<^verbatim>\<open>promoted\<close> is
  incremented. Dereferencing a null leader has no defined behaviour.
\<close>

definition matches :: "chunk \<Rightarrow> piece \<Rightarrow> byte list \<times> 32 word \<Rightarrow> bool" where
  "matches c p e = compare_buffer c (fst e) (piece_offset p) (piece_length p)"

definition update_failed_block :: "chunk \<Rightarrow> block \<Rightarrow> error + (bool \<times> block)" where
  "update_failed_block c b =
     (let fl = (case failed_list b of None \<Rightarrow> new_block_failed | Some fl \<Rightarrow> fl);
          p = blk_piece b;
          es = fl_entries fl;
          failedItr = find_if (matches c p) es 0;
          promoted = (failedItr \<noteq> length es
                      \<and> snd (es ! max_element fl) = snd (es ! failedItr)
                      \<and> Some (max_element fl) \<noteq> reverse_max_element fl);
          es = (if failedItr = length es
                then es @ [(to_buffer c (piece_offset p) (piece_length p), 1)]
                else es[failedItr := (fst (es ! failedItr), snd (es ! failedItr) + 1)]);
          b = b\<lparr>failed_list := Some \<lparr>fl_entries = es, fl_current = failedItr\<rparr>\<rparr>
      in case leader b of
           None \<Rightarrow> Inl undefined_behaviour
         | Some l \<Rightarrow>
             if length (transfers b) \<le> l then Inl undefined_behaviour
             else Inr (promoted,
                       b\<lparr>transfers := (transfers b)
                            [l := (transfers b ! l)\<lparr>failed_index := of_nat failedItr\<rparr>]\<rparr>))"

fun update_failed_loop ::
  "chunk \<Rightarrow> 32 word \<Rightarrow> block list \<Rightarrow> error option \<times> 32 word \<times> block list" where
  "update_failed_loop c promoted [] = (None, promoted, [])"
| "update_failed_loop c promoted (b # bs) =
     (case update_failed_block c b of
        Inl e \<Rightarrow> (Some e, promoted, b # bs)
      | Inr (inc, b') \<Rightarrow>
          (case update_failed_loop c (if inc then promoted + 1 else promoted) bs of
             (e, promoted', bs') \<Rightarrow> (e, promoted', b' # bs')))"

definition update_failed :: "block_list \<Rightarrow> chunk \<Rightarrow> error option \<times> 32 word \<times> block_list" where
  "update_failed bl c =
     (let bl = bl\<lparr>failed := failed bl + 1\<rparr> in
      case update_failed_loop c 0 (blocks bl) of
        (e, promoted, bs) \<Rightarrow> (e, promoted, bl\<lparr>blocks := bs\<rparr>))"

subsection \<open>\<^verbatim>\<open>retry_most_popular\<close>\<close>

definition retry_block :: "chunk \<Rightarrow> block \<Rightarrow> error + (chunk \<times> block)" where
  "retry_block c b =
     (case failed_list b of
        None \<Rightarrow> Inl undefined_behaviour
      | Some fl \<Rightarrow>
          (case reverse_max_element fl of
             None \<Rightarrow> Inl internal_error
           | Some failedItr \<Rightarrow>
               if failedItr = fl_current fl then Inr (c, b)
               else Inr (from_buffer c (fst (fl_entries fl ! failedItr))
                           (piece_offset (blk_piece b)) (piece_length (blk_piece b)),
                         b\<lparr>failed_list := Some (fl\<lparr>fl_current := failedItr\<rparr>)\<rparr>)))"

fun retry_loop :: "chunk \<Rightarrow> block list \<Rightarrow> error option \<times> chunk \<times> block list" where
  "retry_loop c [] = (None, c, [])"
| "retry_loop c (b # bs) =
     (case retry_block c b of
        Inl e \<Rightarrow> (Some e, c, b # bs)
      | Inr (c', b') \<Rightarrow>
          (case retry_loop c' bs of (e, c'', bs') \<Rightarrow> (e, c'', b' # bs')))"

text \<open>The result lists the slot calls: \<^verbatim>\<open>m_slot_completed\<close> after the loop, if it got there.\<close>

definition retry_most_popular ::
  "block_list \<Rightarrow> chunk \<Rightarrow> error option \<times> chunk \<times> block_list \<times> effect list" where
  "retry_most_popular bl c =
     (case retry_loop c (blocks bl) of
        (e, c', bs) \<Rightarrow>
          (e, c', bl\<lparr>blocks := bs\<rparr>, if e = None then [slot_completed (index bl)] else []))"

subsection \<open>\<^verbatim>\<open>hash_failed\<close>\<close>

text \<open>
  \<^verbatim>\<open>BlockList::do_all_failed\<close> (\<^verbatim>\<open>torrent/data/block_list.h\<close>) is not part of the sources: what
  it does to the block list is the parameter \<open>daf\<close>, and its call is recorded among the
  effects.
\<close>

definition all_failed ::
  "(block_list \<Rightarrow> block_list) \<Rightarrow> nat \<Rightarrow> block_list \<Rightarrow> chunk \<Rightarrow> transfer_list
     \<Rightarrow> error option \<times> chunk \<times> transfer_list" where
  "all_failed daf itr bl c tlist =
     (None, c, emit [called_do_all_failed (index bl)] (store_block_list itr (daf bl) tlist))"

definition hash_failed ::
  "(block_list \<Rightarrow> block_list) \<Rightarrow> 32 word \<Rightarrow> chunk \<Rightarrow> transfer_list
     \<Rightarrow> error option \<times> chunk \<times> transfer_list" where
  "hash_failed daf idx c tlist =
     (let blockListItr = find_tl idx tlist in
      if blockListItr = length (block_lists tlist) then (Some internal_error, c, tlist)
      else
        (let bl = block_lists tlist ! blockListItr in
         if \<not> all_finished bl then (Some internal_error, c, tlist)
         else
           (let tlist = tlist\<lparr>m_failedCount := m_failedCount tlist + 1\<rparr> in
            if attempt bl = 0 then
              (case update_failed bl c of
                 (Some e, promoted, bl) \<Rightarrow> (Some e, c, store_block_list blockListItr bl tlist)
               | (None, promoted, bl) \<Rightarrow>
                   if 0 < promoted \<or> unat promoted < length (blocks bl) then
                     (case retry_most_popular (bl\<lparr>attempt := 1\<rparr>) c of
                        (e, c', bl, es) \<Rightarrow> (e, c', emit es (store_block_list blockListItr bl tlist)))
                   else all_failed daf blockListItr bl c tlist)
            else all_failed daf blockListItr bl c tlist)))"

subsection \<open>\<^verbatim>\<open>mark_failed_peers\<close> and \<^verbatim>\<open>hash_succeeded\<close>\<close>

text \<open>
  \<^verbatim>\<open>badPeers\<close> is a \<^verbatim>\<open>std::set<PeerInfo*>\<close>: a list without repetition in the order of the
  pointers, in which the final loop visits it. Dereferencing a null failed list has no
  defined behaviour. \<^verbatim>\<open>set_current\<close> takes the result of \<^verbatim>\<open>std::find_if\<close>, which is the
  position of the first entry equal to the chunk bytes, or \<^verbatim>\<open>end()\<close>.
\<close>

definition is_bad_transfer :: "nat \<Rightarrow> block_transfer \<Rightarrow> bool" where
  "is_bad_transfer current t = (unat (failed_index t) \<noteq> current \<and> failed_index t \<noteq> - 1)"

definition mark_block :: "chunk \<Rightarrow> nat list \<Rightarrow> block \<Rightarrow> error + (nat list \<times> block)" where
  "mark_block c badPeers b =
     (case failed_list b of
        None \<Rightarrow> Inl undefined_behaviour
      | Some fl \<Rightarrow>
          (let fl = fl\<lparr>fl_current := find_if (matches c (blk_piece b)) (fl_entries fl) 0\<rparr>;
               badPeers = foldl (\<lambda>s t. if is_bad_transfer (fl_current fl) t
                                       then insort_insert (peer_info t) s else s)
                            badPeers (transfers b)
           in Inr (badPeers, b\<lparr>failed_list := Some fl\<rparr>)))"

fun mark_loop :: "chunk \<Rightarrow> nat list \<Rightarrow> block list \<Rightarrow> error option \<times> nat list \<times> block list" where
  "mark_loop c badPeers [] = (None, badPeers, [])"
| "mark_loop c badPeers (b # bs) =
     (case mark_block c badPeers b of
        Inl e \<Rightarrow> (Some e, badPeers, b # bs)
      | Inr (badPeers', b') \<Rightarrow>
          (case mark_loop c badPeers' bs of (e, badPeers'', bs') \<Rightarrow> (e, badPeers'', b' # bs')))"

definition mark_failed_peers ::
  "block_list \<Rightarrow> chunk \<Rightarrow> error option \<times> block_list \<times> effect list" where
  "mark_failed_peers bl c =
     (case mark_loop c [] (blocks bl) of
        (e, badPeers, bs) \<Rightarrow>
          (e, bl\<lparr>blocks := bs\<rparr>, if e = None then map slot_corrupt badPeers else []))"

text \<open>
  Modelled from the spec: \<^verbatim>\<open>utils::timer\<close> (\<^verbatim>\<open>torrent/utils/timer.h\<close>) is not part of the
  sources; following the specification a timer counts microseconds. The clock is read
  several times during a call: \<open>clk k\<close> is what \<^verbatim>\<open>utils::timer::current()\<close> returns at the
  k-th reading of the call (counted from 0).
\<close>

definition from_minutes :: "int \<Rightarrow> int" where
  "from_minutes m = m * 60 * 1000000"

text \<open>
  \<^verbatim>\<open>std::find_if\<close> with the predicate that reads the clock at each entry it tests, and
  the erasure of the entries before the one found: the result is what is kept.
\<close>

fun erase_old :: "(nat \<Rightarrow> int) \<Rightarrow> nat \<Rightarrow> (int \<times> 32 word) list \<Rightarrow> (int \<times> 32 word) list" where
  "erase_old clk k [] = []"
| "erase_old clk k (v # vs) =
     (if clk k - from_minutes 30 \<le> fst v then v # vs else erase_old clk (Suc k) vs)"

definition push_completed ::
  "(nat \<Rightarrow> int) \<Rightarrow> 32 word \<Rightarrow> (int \<times> 32 word) list \<Rightarrow> (int \<times> 32 word) list" where
  "push_completed clk idx cl =
     (let cl = cl @ [(clk 0, idx)] in
      if fst (hd cl) + from_minutes 60 < clk 1 then erase_old clk 2 cl else cl)"

text \<open>
  \<^verbatim>\<open>hash_succeeded\<close> dereferences the result of \<^verbatim>\<open>find\<close> without comparing it with
  \<^verbatim>\<open>end()\<close>: for an index that is not in the list it has no defined behaviour.
\<close>

definition hash_succeeded ::
  "(nat \<Rightarrow> int) \<Rightarrow> 32 word \<Rightarrow> chunk \<Rightarrow> transfer_list \<Rightarrow> error option \<times> transfer_list" where
  "hash_succeeded clk idx c tlist =
     (let blockListItr = find_tl idx tlist in
      if blockListItr = length (block_lists tlist) then (Some undefined_behaviour, tlist)
      else
        (let bl = block_lists tlist ! blockListItr in
         if \<not> all_finished bl then (Some internal_error, tlist)
         else
           (case (if failed bl \<noteq> 0 then mark_failed_peers bl c else (None, bl, [])) of
              (Some e, bl, es) \<Rightarrow> (Some e, emit es (store_block_list blockListItr bl tlist))
            | (None, bl, es) \<Rightarrow>
                (let tlist = emit es (store_block_list blockListItr bl tlist);
                     tlist = tlist\<lparr>m_completedList := push_completed clk idx (m_completedList tlist)\<rparr>;
                     tlist = tlist\<lparr>m_succeededCount := m_succeededCount tlist + 1\<rparr>
                 in (None, tlist\<lparr>block_lists := vector_erase blockListItr (block_lists tlist)\<rparr>)))))"

subsection \<open>Conditions on blocks\<close>

text \<open>
  A block has a leader when its leader pointer is not null and points to one of its
  transfers; it has entries when its failed list exists and is not empty.
\<close>

definition has_leader :: "block \<Rightarrow> bool" where
  "has_leader b = (case leader b of None \<Rightarrow> False | Some l \<Rightarrow> l < length (transfers b))"

definition has_entries :: "block \<Rightarrow> bool" where
  "has_entries b = (case failed_list b of None \<Rightarrow> False | Some fl \<Rightarrow> fl_entries fl \<noteq> [])"

subsection \<open>The entry of a failed list that holds the good bytes\<close>

text \<open>
  After a successful hash check the chunk holds the good bytes. A position \<open>i\<close> points to
  the good entry of a block when the entry at \<open>i\<close> of the block's failed list equals
  the chunk bytes of the block and no earlier entry does. When no entry equals them,
  the position that stands for the good entry is the end of the failed list.
\<close>

definition points_to_good_entry :: "chunk \<Rightarrow> block \<Rightarrow> nat \<Rightarrow> bool" where
  "points_to_good_entry c b i =
     (case failed_list b of
        None \<Rightarrow> False
      | Some fl \<Rightarrow>
          if list_ex (matches c (blk_piece b)) (fl_entries fl)
          then i < length (fl_entries fl) \<and> matches c (blk_piece b) (fl_entries fl ! i)
               \<and> list_all (\<lambda>j. \<not> matches c (blk_piece b) (fl_entries fl ! j)) [0 ..< i]
          else i = length (fl_entries fl))"

text \<open>
  The peers that sent something else: those with a transfer of some block (of the block
  \<open>b\<close>, for \<open>bad_of_block\<close>) whose \<^verbatim>\<open>failed_index\<close> is set and does not point to the good
  entry of the block.
\<close>

definition bad_of_block :: "chunk \<Rightarrow> block \<Rightarrow> nat set" where
  "bad_of_block c b =
     set (map peer_info
       (filter (\<lambda>t. failed_index t \<noteq> - 1
                     \<and> \<not> points_to_good_entry c b (unat (failed_index t)))
          (transfers b)))"

definition sent_bad_data :: "chunk \<Rightarrow> block_list \<Rightarrow> nat set" where
  "sent_bad_data c bl = (\<Union>b \<in> set (blocks bl). bad_of_block c b)"

section \<open>Concrete inputs\<close>

text \<open>The concrete states and inputs at which the theorems below are instantiated.\<close>

subsection \<open>SocketStream scenarios\<close>

text \<open>
  The six scenarios of the specification: a socket whose primitive
  answers, in turn: 5 bytes, 0, and four times -1 with errno EAGAIN (11), ECONNRESET
  (104), ENOBUFS (105) and EINVAL (22), under a classification that puts 11 in the
  momentary class, 104 in the closed class and 105 in the prolonged class.
\<close>

definition scenario_error_number :: error_number where
  "scenario_error_number =
     \<lparr>is_blocked_momentary = (\<lambda>e. e = 11), is_closed = (\<lambda>e. e = 104),
      is_blocked_prolonged = (\<lambda>e. e = 105)\<rparr>"

definition scenario_script :: "nat \<Rightarrow> 32 word \<times> int" where
  "scenario_script k =
     (if k = 0 then (5, 0) else if k = 1 then (0, 0) else if k = 2 then (- 1, 11)
      else if k = 3 then (- 1, 104) else if k = 4 then (- 1, 105) else (- 1, 22))"

subsection \<open>A tracker list\<close>

text \<open>
  Six trackers: the first and the fourth cannot be requested; the second and the third
  have failed, with next tries at 50 and 40; the fifth and the sixth have not failed,
  with next requests at 35 and 1.
\<close>

definition example_trackers :: "tracker list" where
  "example_trackers =
     [\<lparr>can_request_state = False, failed_counter = 0, failed_time_next = 0, success_time_next = 0\<rparr>,
      \<lparr>can_request_state = True, failed_counter = 2, failed_time_next = 50, success_time_next = 0\<rparr>,
      \<lparr>can_request_state = True, failed_counter = 1, failed_time_next = 40, success_time_next = 0\<rparr>,
      \<lparr>can_request_state = False, failed_counter = 0, failed_time_next = 0, success_time_next = 9\<rparr>,
      \<lparr>can_request_state = True, failed_counter = 0, failed_time_next = 0, success_time_next = 35\<rparr>,
      \<lparr>can_request_state = True, failed_counter = 0, failed_time_next = 0, success_time_next = 1\<rparr>]"

text \<open>
  Three trackers, all of which can be requested: the first has failed, with its next
  try at 50; the second has not failed, with its next request at 60; the third has
  failed, with its next try at 10.
\<close>

definition interleaved_trackers :: "tracker list" where
  "interleaved_trackers =
     [\<lparr>can_request_state = True, failed_counter = 1, failed_time_next = 50, success_time_next = 0\<rparr>,
      \<lparr>can_request_state = True, failed_counter = 0, failed_time_next = 0, success_time_next = 60\<rparr>,
      \<lparr>can_request_state = True, failed_counter = 3, failed_time_next = 10, success_time_next = 0\<rparr>]"

subsection \<open>An announce request\<close>

text \<open>
  The fifth scenario of the specification: info hash \<open>01 .. 14\<close>, peer id \<open>21 .. 34\<close>
  (hexadecimal), 100 bytes downloaded, 200 left, 50 uploaded, event 1 (started), no
  IPv4 local address, key \<open>deadbeef\<close>, numwant 30, port 6881; the connection id is
  \<open>1122334455667788\<close> and the next random number \<open>01020304\<close>.
\<close>

definition example_info :: download_info where
  "example_info =
     \<lparr>hash = hash_string_of
        [0x01, 0x02, 0x03, 0x04, 0x05, 0x06, 0x07, 0x08, 0x09, 0x0A,
         0x0B, 0x0C, 0x0D, 0x0E, 0x0F, 0x10, 0x11, 0x12, 0x13, 0x14],
      local_id = hash_string_of
        [0x21, 0x22, 0x23, 0x24, 0x25, 0x26, 0x27, 0x28, 0x29, 0x2A,
         0x2B, 0x2C, 0x2D, 0x2E, 0x2F, 0x30, 0x31, 0x32, 0x33, 0x34],
      uploaded_adjusted = 50, completed_adjusted = 100, slot_left = 200\<rparr>"

definition example_announce_env :: announce_env where
  "example_announce_env =
     \<lparr>random_uint32 = 0x01020304, local_address = af_unspec, key = 0xDEADBEEF,
      numwant = 30, listen_port = 6881\<rparr>"

definition example_tracker_udp :: tracker_udp where
  "example_tracker_udp =
     \<lparr>m_connectionId = 0x1122334455667788, m_action = 0, m_transactionId = 0,
      m_sendState = 1, m_writeBuffer = []\<rparr>"

subsection \<open>An announce response without a minimum interval\<close>

text \<open>
  The response \<^verbatim>\<open>d8:intervali1800e5:peers0:e\<close>, handled by a tracker whose intervals are 1
  and 2, with the defaults 1800 (normal) and 600 (minimum) and parsers that find no peer.
\<close>

definition example_response :: object where
  "example_response = OMap [(''interval'', OValue 1800), (''peers'', OString [])]"

definition example_http_env :: "nat http_env" where
  "example_http_env =
     \<lparr>default_normal_interval = 1800, default_min_interval = 600, cachedTime_seconds = 0,
      parse_address_compact = (\<lambda>s. []), parse_address_normal = (\<lambda>l. Inr []),
      parse_address_compact_ipv6 = (\<lambda>s. [])\<rparr>"

definition example_tracker_http :: tracker_http where
  "example_tracker_http =
     \<lparr>m_normal_interval = 1, m_min_interval = 2, m_tracker_id = [], m_scrape_complete = 0,
      m_scrape_incomplete = 0, m_scrape_downloaded = 0, m_scrape_time_last = 0\<rparr>"

subsection \<open>Resource managers\<close>


text \<open>
  Two groups are made, a download (1) is inserted into the second group and erased
  again.
\<close>

definition insert_erase_calls :: "manager_call list" where
  "insert_erase_calls =
     [Push_group ''a'', Push_group ''b'',
      Insert \<lparr>m_download = 1, m_group = 1, m_priority = 0\<rparr>, Erase 1]"

subsection \<open>Transfer lists\<close>

text \<open>
  The first scenario of the specification: the piece 3 has two blocks of one byte; peer 1
  delivered \<open>[AA, BB]\<close> and leads both blocks, peer 2 delivered \<open>[AA, CC]\<close>; the chunk holds
  \<open>[AA, BB]\<close>. In \<open>fresh_transfer_list\<close> no hash has failed yet.
\<close>

definition example_chunk :: chunk where
  "example_chunk = [0xAA, 0xBB]"

definition fresh_block :: "nat \<Rightarrow> block" where
  "fresh_block offset =
     \<lparr>blk_piece = \<lparr>piece_index = 3, piece_offset = offset, piece_length = 1\<rparr>,
      transfers = [\<lparr>peer_info = 1, failed_index = - 1\<rparr>, \<lparr>peer_info = 2, failed_index = - 1\<rparr>],
      leader = Some 0, failed_list = None, is_finished = True\<rparr>"

definition fresh_transfer_list :: transfer_list where
  "fresh_transfer_list =
     \<lparr>block_lists = [\<lparr>index = 3, failed = 0, attempt = 0, blocks = [fresh_block 0, fresh_block 1]\<rparr>],
      m_completedList = [], m_succeededCount = 0, m_failedCount = 0, emitted = []\<rparr>"

text \<open>
  In \<open>retried_transfer_list\<close> the hash has failed once for each of the two variants: the
  first block has the one entry \<open>(AA, 2)\<close>, the second block the entries \<open>(BB, 1)\<close> and
  \<open>(CC, 1)\<close>; the transfers of peer 1 matched the first entries, the transfer of peer 2
  for the second block matched \<open>CC\<close>.
\<close>

definition retried_transfer_list :: transfer_list where
  "retried_transfer_list =
     \<lparr>block_lists =
        [\<lparr>index = 3, failed = 2, attempt = 1,
          blocks =
            [\<lparr>blk_piece = \<lparr>piece_index = 3, piece_offset = 0, piece_length = 1\<rparr>,
              transfers = [\<lparr>peer_info = 1, failed_index = 0\<rparr>, \<lparr>peer_info = 2, failed_index = 0\<rparr>],
              leader = Some 0,
              failed_list = Some \<lparr>fl_entries = [([0xAA], 2)], fl_current = 0\<rparr>,
              is_finished = True\<rparr>,
             \<lparr>blk_piece = \<lparr>piece_index = 3, piece_offset = 1, piece_length = 1\<rparr>,
              transfers = [\<lparr>peer_info = 1, failed_index = 0\<rparr>, \<lparr>peer_info = 2, failed_index = 1\<rparr>],
              leader = Some 0,
              failed_list = Some \<lparr>fl_entries = [([0xBB], 1), ([0xCC], 1)], fl_current = 0\<rparr>,
              is_finished = True\<rparr>]\<rparr>],
      m_completedList = [], m_succeededCount = 0, m_failedCount = 2, emitted = []\<rparr>"

text \<open>
  A clock whose first reading is 0 and whose later readings are 61 minutes: between the
  first and the second reading the process was held up, or the clock was set.
\<close>

definition held_up_clock :: "nat \<Rightarrow> int" where
  "held_up_clock k = (if k = 0 then 0 else from_minutes 61)"

chapter \<open>Properties\<close>

section \<open>Auxiliary facts on \<^verbatim>\<open>std::find_if\<close>\<close>

lemma find_if_filter:
  "find_if p xs i =
     (case filter (\<lambda>i. p (xs ! i)) [i ..< length xs] of [] \<Rightarrow> length xs | first # _ \<Rightarrow> first)"
proof (induction p xs i rule: find_if.induct)
  case (1 p xs i)
  show ?case
  proof (cases "i < length xs")
    case True
    with 1 show ?thesis
      by (subst find_if.simps) (simp add: upt_conv_Cons)
  next
    case False
    then show ?thesis
      by (subst find_if.simps) simp
  qed
qed

lemma find_if_Nil: "find_if p [] i = 0"
  by (subst find_if.simps) simp

lemma find_if_end_iff: "find_if p xs 0 = length xs \<longleftrightarrow> (\<forall>x \<in> set xs. \<not> p x)"
proof -
  have "filter (\<lambda>i. p (xs ! i)) [0 ..< length xs] = [] \<longleftrightarrow> (\<forall>x \<in> set xs. \<not> p x)"
    using nth_mem [of _ xs] by (fastforce simp: filter_empty_conv in_set_conv_nth)
  moreover have "\<And>i is. filter (\<lambda>i. p (xs ! i)) [0 ..< length xs] = i # is \<Longrightarrow> i < length xs"
  proof -
    fix i "is"
    assume "filter (\<lambda>i. p (xs ! i)) [0 ..< length xs] = i # is"
    then have "i \<in> set (filter (\<lambda>i. p (xs ! i)) [0 ..< length xs])"
      by simp
    then show "i < length xs" by simp
  qed
  ultimately show ?thesis
    by (cases "filter (\<lambda>i. p (xs ! i)) [0 ..< length xs]") (auto simp: find_if_filter)
qed

lemma find_if_le: "i \<le> length xs \<Longrightarrow> find_if p xs i \<le> length xs"
proof (induction p xs i rule: find_if.induct)
  case (1 p xs i)
  then show ?case
    by (subst find_if.simps) auto
qed

lemma find_if_found:
  assumes "find_if p xs 0 < length xs"
  shows "p (xs ! find_if p xs 0)" and "\<forall>j < find_if p xs 0. \<not> p (xs ! j)"
proof -
  have gen: "find_if p xs i < length xs \<Longrightarrow>
      p (xs ! find_if p xs i) \<and> (\<forall>j. i \<le> j \<and> j < find_if p xs i \<longrightarrow> \<not> p (xs ! j))" for i
  proof (induction p xs i rule: find_if.induct)
    case (1 p xs i)
    show ?case
    proof (cases "i < length xs \<and> \<not> p (xs ! i)")
      case True
      then have eq: "find_if p xs i = find_if p xs (Suc i)"
        by (subst find_if.simps) simp
      with 1 True have "p (xs ! find_if p xs (Suc i))
          \<and> (\<forall>j. Suc i \<le> j \<and> j < find_if p xs (Suc i) \<longrightarrow> \<not> p (xs ! j))"
        by simp
      with True show ?thesis
        unfolding eq by (metis Suc_leI le_neq_implies_less)
    next
      case False
      with "1.prems" have "find_if p xs i = i \<and> p (xs ! i)"
        by (subst (asm) find_if.simps, subst find_if.simps) (auto split: if_splits)
      then show ?thesis by auto
    qed
  qed
  from gen [of 0] assms show "p (xs ! find_if p xs 0)" and "\<forall>j < find_if p xs 0. \<not> p (xs ! j)"
    by auto
qed

section \<open>SocketStream: classification of the result\<close>

lemma sint_positive_is_uint:
  fixes r :: "32 word"
  assumes "0 < sint r"
  shows "uint r = sint r"
proof -
  have lt: "uint r < 2 ^ 32"
    using uint_bounded [of r] by simp
  have tb: "take_bit 32 (uint r) = uint r"
    by (rule take_bit_int_eq_self) (use lt in simp_all)
  have eq: "sint r = uint r - 2 ^ 32 * of_bool (bit (uint r) 31)"
    using signed_take_bit_eq_take_bit_minus [of 31 "uint r"]
    by (simp add: sint_uint tb)
  show ?thesis
  proof (cases "bit (uint r) 31")
    case True
    with eq lt assms show ?thesis by simp
  next
    case False
    with eq show ?thesis by simp
  qed
qed

lemma stream_throws_cases:
  "stream_throws en (r, errno) =
     (if 0 < sint r then Inr r
      else if r = 0 then Inl close_connection
      else if is_blocked_momentary en errno then Inr 0
      else if is_closed en errno then Inl close_connection
      else if is_blocked_prolonged en errno then Inl blocked_connection
      else Inl (connection_error errno))"
proof -
  have "sint r = 0 \<longleftrightarrow> r = 0"
    by (metis signed_0 signed_word_eqI)
  then have "\<not> 0 < sint r \<Longrightarrow> r \<noteq> 0 \<Longrightarrow> sint r < 0"
    by linarith
  then show ?thesis
    by (auto simp: stream_throws_def Let_def)
qed

text \<open>
  Claim C6. Let the primitive answer \<open>r\<close> and leave \<open>errno\<close>. Then
  \<^verbatim>\<open>read_stream_throws\<close> and \<^verbatim>\<open>write_stream_throws\<close> call the primitive exactly once (there
  is no retry), and: a positive \<open>r\<close> is returned as it is (the \<^verbatim>\<open>int\<close> and the returned
  \<^verbatim>\<open>uint32_t\<close> denote the same number); \<open>r = 0\<close> raises \<^verbatim>\<open>close_connection\<close>; a negative
  \<open>r\<close> returns 0 for a momentary-block errno, raises \<^verbatim>\<open>close_connection\<close> for a
  closed-class errno, \<^verbatim>\<open>blocked_connection\<close> for a prolonged-block errno and
  \<^verbatim>\<open>connection_error(errno)\<close> for any other errno. The classes are tested in this
  order, which is written out for an errno that belongs to more than one class.
\<close>

theorem stream_throws_contract:
  assumes "script s (calls s) = (r, errno)"
  shows "(\<forall>f \<in> {read_stream_throws, write_stream_throws}.
      snd (f en s) = s\<lparr>calls := Suc (calls s)\<rparr> \<and>
      (0 < sint r \<longrightarrow> fst (f en s) = Inr r \<and> uint r = sint r) \<and>
      (r = 0 \<longrightarrow> fst (f en s) = Inl close_connection) \<and>
      (sint r < 0 \<and> is_blocked_momentary en errno \<longrightarrow> fst (f en s) = Inr 0) \<and>
      (sint r < 0 \<and> \<not> is_blocked_momentary en errno \<and> is_closed en errno \<longrightarrow>
         fst (f en s) = Inl close_connection) \<and>
      (sint r < 0 \<and> \<not> is_blocked_momentary en errno \<and> \<not> is_closed en errno \<and>
         is_blocked_prolonged en errno \<longrightarrow> fst (f en s) = Inl blocked_connection) \<and>
      (sint r < 0 \<and> \<not> is_blocked_momentary en errno \<and> \<not> is_closed en errno \<and>
         \<not> is_blocked_prolonged en errno \<longrightarrow> fst (f en s) = Inl (connection_error errno)))"
proof -
  have rd: "read_stream_throws en s = (stream_throws en (r, errno), s\<lparr>calls := Suc (calls s)\<rparr>)"
    using assms by (simp add: read_stream_throws_def read_stream_def)
  have wr: "write_stream_throws en s = (stream_throws en (r, errno), s\<lparr>calls := Suc (calls s)\<rparr>)"
    using assms by (simp add: write_stream_throws_def write_stream_def)
  have pos: "0 < sint r \<Longrightarrow> uint r = sint r"
    by (rule sint_positive_is_uint)
  have zero: "r = 0 \<Longrightarrow> \<not> 0 < sint r" "sint r < 0 \<Longrightarrow> r \<noteq> 0"
    by auto
  show ?thesis
    using pos zero by (simp add: rd wr stream_throws_cases)
qed

theorem stream_throws_contract_witness:
  "fst (read_stream_throws scenario_error_number \<lparr>script = scenario_script, calls = 0\<rparr>) = Inr 5
   \<and> fst (write_stream_throws scenario_error_number \<lparr>script = scenario_script, calls = 1\<rparr>)
       = Inl close_connection
   \<and> fst (read_stream_throws scenario_error_number \<lparr>script = scenario_script, calls = 2\<rparr>) = Inr 0
   \<and> fst (read_stream_throws scenario_error_number \<lparr>script = scenario_script, calls = 3\<rparr>)
       = Inl close_connection
   \<and> fst (write_stream_throws scenario_error_number \<lparr>script = scenario_script, calls = 4\<rparr>)
       = Inl blocked_connection
   \<and> fst (read_stream_throws scenario_error_number \<lparr>script = scenario_script, calls = 5\<rparr>)
       = Inl (connection_error 22)
   \<and> calls (snd (read_stream_throws scenario_error_number \<lparr>script = scenario_script, calls = 5\<rparr>)) = 6"
  using stream_throws_contract [of "\<lparr>script = scenario_script, calls = 0\<rparr>" 5 0 scenario_error_number]
    stream_throws_contract [of "\<lparr>script = scenario_script, calls = 1\<rparr>" 0 0 scenario_error_number]
    stream_throws_contract [of "\<lparr>script = scenario_script, calls = 2\<rparr>" "- 1" 11 scenario_error_number]
    stream_throws_contract [of "\<lparr>script = scenario_script, calls = 3\<rparr>" "- 1" 104 scenario_error_number]
    stream_throws_contract [of "\<lparr>script = scenario_script, calls = 4\<rparr>" "- 1" 105 scenario_error_number]
    stream_throws_contract [of "\<lparr>script = scenario_script, calls = 5\<rparr>" "- 1" 22 scenario_error_number]
  by (simp add: scenario_script_def scenario_error_number_def)

section \<open>TrackerList: the next tracker to request\<close>

lemma requestable_from_step:
  "i < length ts \<Longrightarrow> requestable_from ts i =
     (if can_request_state (ts ! i) then [i] else []) @ requestable_from ts (Suc i)"
  by (simp add: requestable_from_def upt_conv_Cons)

lemma requestable_from_end: "length ts \<le> i \<Longrightarrow> requestable_from ts i = []"
  by (simp add: requestable_from_def)

lemma filter_upt_tail:
  "filter p [i ..< n] = x # xs \<Longrightarrow> filter p [Suc x ..< n] = xs"
proof (induction "n - i" arbitrary: i)
  case 0
  then show ?case by simp
next
  case (Suc k)
  then have lt: "i < n" by simp
  show ?case
  proof (cases "p i")
    case True
    with Suc.prems lt show ?thesis by (auto simp: upt_conv_Cons)
  next
    case False
    with Suc.prems lt have "filter p [Suc i ..< n] = x # xs"
      by (simp add: upt_conv_Cons)
    moreover have "k = n - Suc i" using Suc.hyps(2) by simp
    ultimately show ?thesis by (rule Suc.hyps(1) [rotated])
  qed
qed

lemma find_next_loop_on:
  "find_next_loop ts p i = find_next_on ts p (requestable_from ts (Suc i))"
proof (induction ts p i rule: find_next_loop.induct)
  case (1 ts p i)
  show ?case
  proof (cases "Suc i < length ts")
    case True
    with 1 show ?thesis
      by (subst find_next_loop.simps) (simp add: requestable_from_step Let_def)
  next
    case False
    then show ?thesis
      by (subst find_next_loop.simps) (simp add: requestable_from_end)
  qed
qed

lemma smallest_Cons2:
  "smallest_failed_time_next ts (p # c # cs) =
     smallest_failed_time_next ts
       ((if failed_time_next (ts ! c) < failed_time_next (ts ! p) then c else p) # cs)"
  by (cases cs) (auto simp: smallest_failed_time_next_def min_def)

lemma smallest_le_hd: "smallest_failed_time_next ts (p # cs) \<le> failed_time_next (ts ! p)"
  by (simp add: smallest_failed_time_next_def)

lemma smallest_le_snd: "smallest_failed_time_next ts (p # c # cs) \<le> failed_time_next (ts ! c)"
  by (simp add: smallest_failed_time_next_def min.coboundedI2)

lemma find_next_on_failing:
  "\<forall>i \<in> set cs. failed_counter (ts ! i) \<noteq> 0 \<Longrightarrow>
     find_next_on ts p cs = tentative_choice ts (p # cs)"
proof (induction cs arbitrary: p)
  case Nil
  show ?case by (simp add: tentative_choice_def smallest_failed_time_next_def)
next
  case (Cons c cs)
  let ?p' = "if failed_time_next (ts ! c) < failed_time_next (ts ! p) then c else p"
  have "find_next_on ts p (c # cs) = tentative_choice ts (?p' # cs)"
    using Cons by simp
  also have "\<dots> = tentative_choice ts (p # c # cs)"
    using smallest_le_hd [of ts p "c # cs"] smallest_le_snd [of ts p c cs]
    unfolding tentative_choice_def smallest_Cons2 [of ts p c cs, symmetric]
    by auto
  finally show ?case .
qed

lemma find_next_on_split:
  "find_next_on ts p cs =
     (case dropWhile (\<lambda>i. failed_counter (ts ! i) \<noteq> 0) cs of
        [] \<Rightarrow> find_next_on ts p (takeWhile (\<lambda>i. failed_counter (ts ! i) \<noteq> 0) cs)
      | healthy # _ \<Rightarrow>
          if success_time_next (ts ! healthy)
             < failed_time_next
                 (ts ! find_next_on ts p (takeWhile (\<lambda>i. failed_counter (ts ! i) \<noteq> 0) cs))
          then healthy
          else find_next_on ts p (takeWhile (\<lambda>i. failed_counter (ts ! i) \<noteq> 0) cs))"
proof (induction cs arbitrary: p)
  case Nil
  show ?case by simp
next
  case (Cons c cs)
  show ?case
  proof (cases "failed_counter (ts ! c) = 0")
    case True
    then show ?thesis by simp
  next
    case False
    let ?p' = "if failed_time_next (ts ! c) < failed_time_next (ts ! p) then c else p"
    have "find_next_on ts p (c # cs) = find_next_on ts ?p' cs"
      using False by simp
    also note Cons.IH [of ?p']
    finally have main: "find_next_on ts p (c # cs) =
        (case dropWhile (\<lambda>i. failed_counter (ts ! i) \<noteq> 0) cs of
           [] \<Rightarrow> find_next_on ts ?p' (takeWhile (\<lambda>i. failed_counter (ts ! i) \<noteq> 0) cs)
         | healthy # _ \<Rightarrow>
             if success_time_next (ts ! healthy)
                < failed_time_next
                    (ts ! find_next_on ts ?p' (takeWhile (\<lambda>i. failed_counter (ts ! i) \<noteq> 0) cs))
             then healthy
             else find_next_on ts ?p' (takeWhile (\<lambda>i. failed_counter (ts ! i) \<noteq> 0) cs))" .
    have tw: "takeWhile (\<lambda>i. failed_counter (ts ! i) \<noteq> 0) (c # cs)
        = c # takeWhile (\<lambda>i. failed_counter (ts ! i) \<noteq> 0) cs"
      using False by simp
    have dw: "dropWhile (\<lambda>i. failed_counter (ts ! i) \<noteq> 0) (c # cs)
        = dropWhile (\<lambda>i. failed_counter (ts ! i) \<noteq> 0) cs"
      using False by simp
    have step: "find_next_on ts p (c # takeWhile (\<lambda>i. failed_counter (ts ! i) \<noteq> 0) cs)
        = find_next_on ts ?p' (takeWhile (\<lambda>i. failed_counter (ts ! i) \<noteq> 0) cs)"
      using False by simp
    show ?thesis
      unfolding tw dw step by (rule main)
  qed
qed

lemma tentative_choice_smallest:
  assumes "cs \<noteq> []"
  shows "tentative_choice ts cs \<in> set cs
    \<and> failed_time_next (ts ! tentative_choice ts cs) = smallest_failed_time_next ts cs"
proof -
  let ?m = "smallest_failed_time_next ts cs"
  let ?f = "filter (\<lambda>i. failed_time_next (ts ! i) = ?m) cs"
  have "?m \<in> set (map (\<lambda>i. failed_time_next (ts ! i)) cs)"
    unfolding smallest_failed_time_next_def using assms by (intro Min_in) simp_all
  then have "?f \<noteq> []"
    by (auto simp: filter_empty_conv)
  then have "hd ?f \<in> set ?f"
    by (rule hd_in_set)
  then show ?thesis
    by (simp add: tentative_choice_def)
qed

lemma filter_takeWhile_dropWhile:
  assumes "\<forall>x \<in> set (dropWhile p xs). \<not> p x"
  shows "filter p xs = takeWhile p xs"
proof -
  have split: "filter p xs = filter p (takeWhile p xs @ dropWhile p xs)"
    by simp
  have taken: "filter p (takeWhile p xs) = takeWhile p xs"
    by (auto simp: filter_id_conv dest: set_takeWhileD)
  have dropped: "filter p (dropWhile p xs) = []"
    using assms by (simp add: filter_empty_conv)
  show ?thesis
    by (subst split) (simp only: filter_append taken dropped append_Nil2)
qed

text \<open>
  When no failing tracker that can be requested comes after the first tracker that can
  be requested and has not failed, the end of the walk leaves no candidate out, and the
  rule of the specification allows what the rule with the end of the walk gives.
\<close>

lemma next_to_request_rule_meets_spec:
  assumes "\<forall>i \<in> set (dropWhile (\<lambda>i. failed_counter (ts ! i) \<noteq> 0) (requestable_from ts itr)).
             failed_counter (ts ! i) = 0"
  shows "spec_next_to_request ts itr (next_to_request_rule ts itr)"
proof (cases "requestable_from ts itr")
  case Nil
  then show ?thesis
    by (simp add: spec_next_to_request_def next_to_request_rule_def)
next
  case (Cons first rest)
  show ?thesis
  proof (cases "failed_counter (ts ! first) = 0")
    case True
    with Cons show ?thesis
      by (simp add: spec_next_to_request_def next_to_request_rule_def)
  next
    case False
    let ?failing = "takeWhile (\<lambda>i. failed_counter (ts ! i) \<noteq> 0) rest"
    let ?t = "tentative_choice ts (first # ?failing)"
    have "\<forall>i \<in> set (dropWhile (\<lambda>i. failed_counter (ts ! i) \<noteq> 0) (first # rest)).
        \<not> failed_counter (ts ! i) \<noteq> 0"
      using assms unfolding Cons by blast
    then have "filter (\<lambda>i. failed_counter (ts ! i) \<noteq> 0) (first # rest)
        = takeWhile (\<lambda>i. failed_counter (ts ! i) \<noteq> 0) (first # rest)"
      by (rule filter_takeWhile_dropWhile)
    also have "\<dots> = first # ?failing"
      using False by simp
    finally have ff: "failing_from ts itr = first # ?failing"
      unfolding failing_from_def Cons .
    have t: "?t \<in> set (first # ?failing)"
      "failed_time_next (ts ! ?t) = smallest_failed_time_next ts (first # ?failing)"
      using tentative_choice_smallest [of "first # ?failing" ts] by blast+
    have spec: "spec_next_to_request ts itr r =
        (r \<in> set (first # ?failing)
           \<and> failed_time_next (ts ! r) = smallest_failed_time_next ts (first # ?failing)
         \<or> r \<in> set rest \<and> failed_counter (ts ! r) = 0
           \<and> success_time_next (ts ! r) < smallest_failed_time_next ts (first # ?failing))" for r
      unfolding spec_next_to_request_def Cons ff using False by simp
    have rule: "next_to_request_rule ts itr =
        (case dropWhile (\<lambda>i. failed_counter (ts ! i) \<noteq> 0) rest of
           [] \<Rightarrow> ?t
         | healthy # _ \<Rightarrow>
             if success_time_next (ts ! healthy) < failed_time_next (ts ! ?t) then healthy else ?t)"
      unfolding next_to_request_rule_def Cons using False by (simp add: Let_def)
    show ?thesis
    proof (cases "dropWhile (\<lambda>i. failed_counter (ts ! i) \<noteq> 0) rest")
      case Nil
      have "next_to_request_rule ts itr = ?t"
        unfolding rule Nil by simp
      then show ?thesis
        unfolding spec using t by (intro disjI1 conjI) simp_all
    next
      case dw: (Cons healthy more)
      have "healthy \<in> set (dropWhile (\<lambda>i. failed_counter (ts ! i) \<noteq> 0) rest)"
        unfolding dw by simp
      then have h: "healthy \<in> set rest"
        by (rule set_dropWhileD)
      have h0: "failed_counter (ts ! healthy) = 0"
        using hd_dropWhile [of "\<lambda>i. failed_counter (ts ! i) \<noteq> 0" rest] dw by simp
      have r: "next_to_request_rule ts itr =
          (if success_time_next (ts ! healthy) < failed_time_next (ts ! ?t) then healthy else ?t)"
        unfolding rule dw by simp
      show ?thesis
      proof (cases "success_time_next (ts ! healthy) < failed_time_next (ts ! ?t)")
        case True
        then have "next_to_request_rule ts itr = healthy"
          unfolding r by simp
        with True t(2) h h0 show ?thesis
          unfolding spec by (intro disjI2 conjI) simp_all
      next
        case False
        then have "next_to_request_rule ts itr = ?t"
          unfolding r by simp
        then show ?thesis
          unfolding spec using t by (intro disjI1 conjI) simp_all
      qed
    qed
  qed
qed

text \<open>
  Claim C8 says that, when the first tracker that can be requested has failed, the
  tentative choice is a failing tracker with the smallest \<^verbatim>\<open>failed_time_next\<close> among the
  subsequent trackers that can be requested, and that a tracker that has not failed
  supersedes it only if its \<^verbatim>\<open>success_time_next\<close> is less. The loop ends at the first
  tracker that has not failed, whether it supersedes or not. On the list of a failing
  tracker (next try at 50), a tracker that has not failed (next request at 60) and a
  failing tracker (next try at 10), all three to be requested, the result is position
  0: a failing tracker, although the failing tracker at position 2 has a smaller
  \<^verbatim>\<open>failed_time_next\<close>, and the tracker that has not failed supersedes neither. The
  rule of the specification allows position 2 and does not allow position 0.
\<close>

theorem find_next_to_request_ends_at_healthy:
  "find_next_to_request interleaved_trackers 0 = 0
   \<and> requestable_from interleaved_trackers 0 = [0, 1, 2]
   \<and> failed_counter (interleaved_trackers ! 0) \<noteq> 0
   \<and> failed_counter (interleaved_trackers ! 2) \<noteq> 0
   \<and> failed_time_next (interleaved_trackers ! 2) < failed_time_next (interleaved_trackers ! 0)
   \<and> failed_counter (interleaved_trackers ! 1) = 0
   \<and> \<not> success_time_next (interleaved_trackers ! 1) < failed_time_next (interleaved_trackers ! 0)
   \<and> \<not> success_time_next (interleaved_trackers ! 1) < failed_time_next (interleaved_trackers ! 2)
   \<and> \<not> spec_next_to_request interleaved_trackers 0 (find_next_to_request interleaved_trackers 0)
   \<and> spec_next_to_request interleaved_trackers 0 2"
proof -
  have code: "find_next_to_request interleaved_trackers 0 = 0"
    by (simp add: find_next_to_request_def interleaved_trackers_def find_if.simps
        find_next_loop.simps Let_def)
  have req: "requestable_from interleaved_trackers 0 = [0, 1, 2]"
    by (simp add: requestable_from_def interleaved_trackers_def upt_conv_Cons)
  have failing: "failing_from interleaved_trackers 0 = [0, 2]"
    by (simp add: failing_from_def req) (simp add: interleaved_trackers_def)
  have smallest: "smallest_failed_time_next interleaved_trackers [0, 2] = 10"
    by (simp add: smallest_failed_time_next_def interleaved_trackers_def)
  have "\<not> spec_next_to_request interleaved_trackers 0 0"
    by (simp add: spec_next_to_request_def req failing smallest)
      (simp add: interleaved_trackers_def)
  moreover have "spec_next_to_request interleaved_trackers 0 2"
    by (simp add: spec_next_to_request_def req failing smallest)
      (simp add: interleaved_trackers_def)
  ultimately show ?thesis
    using req by (simp add: code) (simp add: interleaved_trackers_def)
qed

text \<open>
  Claim C8, amended. For every tracker list and every position \<open>itr\<close>,
  \<^verbatim>\<open>find_next_to_request\<close> returns what the rule with the end of the walk says: \<^verbatim>\<open>end()\<close>
  when no tracker at or after \<open>itr\<close> can be requested; the first tracker that can be
  requested when it has \<^verbatim>\<open>failed_counter == 0\<close>; otherwise the earliest tracker with the
  smallest \<^verbatim>\<open>failed_time_next\<close> among that first tracker and the failing trackers that
  can be requested and come after it but before the first tracker that can be
  requested and has not failed, superseded by that tracker if and only if its
  \<^verbatim>\<open>success_time_next\<close> is less than the tentative choice's \<^verbatim>\<open>failed_time_next\<close>. No
  tracker after that one has any part in the result.
\<close>

theorem find_next_to_request_rule:
  "find_next_to_request ts itr = next_to_request_rule ts itr"
proof (cases "requestable_from ts itr")
  case Nil
  then show ?thesis
    by (simp add: find_next_to_request_def next_to_request_rule_def find_if_filter
        requestable_from_def)
next
  case (Cons first rest)
  then have first: "find_if can_request_state ts itr = first"
    by (simp add: find_if_filter requestable_from_def)
  have "first \<in> set (requestable_from ts itr)"
    using Cons by simp
  then have lt: "first < length ts"
    by (auto simp: requestable_from_def)
  have rest: "requestable_from ts (Suc first) = rest"
    using Cons filter_upt_tail [of "\<lambda>i. can_request_state (ts ! i)" itr "length ts" first rest]
    by (simp add: requestable_from_def)
  let ?failing = "takeWhile (\<lambda>i. failed_counter (ts ! i) \<noteq> 0) rest"
  have tent: "find_next_on ts first ?failing = tentative_choice ts (first # ?failing)"
    by (rule find_next_on_failing) (auto dest: set_takeWhileD)
  note loop = find_next_on_split [of ts first rest, unfolded tent]
  have code: "find_next_to_request ts itr =
      (if failed_counter (ts ! first) = 0 then first else find_next_on ts first rest)"
    using lt by (simp add: find_next_to_request_def first find_next_loop_on rest)
  have rule: "next_to_request_rule ts itr =
      (if failed_counter (ts ! first) = 0 then first
       else case dropWhile (\<lambda>i. failed_counter (ts ! i) \<noteq> 0) rest of
              [] \<Rightarrow> tentative_choice ts (first # ?failing)
            | healthy # _ \<Rightarrow>
                if success_time_next (ts ! healthy)
                   < failed_time_next (ts ! tentative_choice ts (first # ?failing))
                then healthy else tentative_choice ts (first # ?failing))"
    by (simp add: next_to_request_rule_def Cons Let_def)
  show ?thesis
    by (simp only: code rule loop)
qed

text \<open>
  On the example list: from the start the failing tracker at position 2 is the tentative
  choice (40 is less than 50) and the tracker at position 4 supersedes it (35 is less
  than 40); without the last two trackers the result is position 2; from position 5 it
  is position 5. On the list of three trackers the walk ends at position 1 and the
  result is position 0.
\<close>

theorem find_next_to_request_rule_witness:
  "find_next_to_request example_trackers 0 = 4
   \<and> next_to_request_rule example_trackers 0 = 4
   \<and> find_next_to_request (take 4 example_trackers) 0 = 2
   \<and> find_next_to_request example_trackers 5 = 5
   \<and> next_to_request_rule interleaved_trackers 0 = 0"
proof -
  have "find_next_to_request example_trackers 0 = 4"
    by (simp add: find_next_to_request_def example_trackers_def find_if.simps
        find_next_loop.simps Let_def)
  moreover have "find_next_to_request (take 4 example_trackers) 0 = 2"
    by (simp add: find_next_to_request_def example_trackers_def find_if.simps
        find_next_loop.simps Let_def)
  moreover have "find_next_to_request example_trackers 5 = 5"
    by (simp add: find_next_to_request_def example_trackers_def find_if.simps
        find_next_loop.simps Let_def)
  moreover have "find_next_to_request interleaved_trackers 0 = 0"
    by (simp add: find_next_to_request_def interleaved_trackers_def find_if.simps
        find_next_loop.simps Let_def)
  ultimately show ?thesis
    using find_next_to_request_rule [of example_trackers 0]
      find_next_to_request_rule [of interleaved_trackers 0] by simp
qed

section \<open>TrackerUdp: the layout of the announce request\<close>

lemma unat_drop_bit_div: "unat (drop_bit k (v :: 'a::len word)) = unat v div 2 ^ k"
proof -
  have "unat (drop_bit k v) = drop_bit k (unat v)"
    by (simp only: unat_drop_bit_eq)
  then show ?thesis
    by (simp add: drop_bit_eq_div)
qed

lemma unat_byte_cast: "unat (ucast (v :: 'a::len word) :: byte) = unat v mod 256"
  by (simp add: unsigned_ucast_eq take_bit_eq_mod)

lemma digit_split: "(n::nat) div 256 ^ k mod 256 * 256 ^ k + n mod 256 ^ k = n mod 256 ^ Suc k"
proof -
  have "n mod (256 ^ k * 256) = 256 ^ k * (n div 256 ^ k mod 256) + n mod 256 ^ k"
    by (rule mod_mult2_eq)
  then show ?thesis by (simp add: mult.commute)
qed

lemma digits_foldl:
  "foldl (\<lambda>a d. a * 256 + d) a (map (\<lambda>i. n div 256 ^ i mod 256) (rev [0 ..< k]))
     = a * 256 ^ k + (n::nat) mod 256 ^ k"
proof (induction k arbitrary: a)
  case 0
  show ?case by simp
next
  case (Suc k)
  have "foldl (\<lambda>a d. a * 256 + d) a (map (\<lambda>i. n div 256 ^ i mod 256) (rev [0 ..< Suc k]))
      = (a * 256 + n div 256 ^ k mod 256) * 256 ^ k + n mod 256 ^ k"
    by (simp add: Suc.IH)
  also have "\<dots> = a * 256 ^ Suc k + (n div 256 ^ k mod 256 * 256 ^ k + n mod 256 ^ k)"
    by (simp add: algebra_simps)
  finally show ?case by (simp only: digit_split)
qed

lemma be_decode_digits:
  assumes "map unat bs = map (\<lambda>i. n div 256 ^ i mod 256) (rev [0 ..< k])" and "n < 256 ^ k"
  shows "be_decode bs = n"
proof -
  have "be_decode bs = foldl (\<lambda>a d. a * 256 + d) 0 (map unat bs)"
    by (simp add: be_decode_def foldl_map)
  then show ?thesis
    using assms by (simp add: digits_foldl)
qed

lemma be_decode_16: "be_decode [ucast (drop_bit 8 v), ucast v] = unat (v :: 16 word)"
proof (rule be_decode_digits [where k = 2])
  show "unat v < 256 ^ 2" using unsigned_less [of v] by simp
  have "rev [0 ..< 2] = [1, 0 :: nat]" by (simp add: upt_rec)
  then show "map unat [ucast (drop_bit 8 v), ucast v :: byte]
      = map (\<lambda>i. unat v div 256 ^ i mod 256) (rev [0 ..< 2])"
    by (simp add: unat_byte_cast unat_drop_bit_div)
qed

lemma be_decode_32:
  "be_decode [ucast (drop_bit 24 v), ucast (drop_bit 16 v), ucast (drop_bit 8 v), ucast v]
     = unat (v :: 32 word)"
proof (rule be_decode_digits [where k = 4])
  show "unat v < 256 ^ 4" using unsigned_less [of v] by simp
  have "rev [0 ..< 4] = [3, 2, 1, 0 :: nat]" by (simp add: upt_rec)
  then show "map unat [ucast (drop_bit 24 v), ucast (drop_bit 16 v), ucast (drop_bit 8 v),
        ucast v :: byte]
      = map (\<lambda>i. unat v div 256 ^ i mod 256) (rev [0 ..< 4])"
    by (simp add: unat_byte_cast unat_drop_bit_div)
qed

lemma be_decode_64:
  "be_decode [ucast (drop_bit 56 v), ucast (drop_bit 48 v), ucast (drop_bit 40 v),
      ucast (drop_bit 32 v), ucast (drop_bit 24 v), ucast (drop_bit 16 v),
      ucast (drop_bit 8 v), ucast v] = unat (v :: 64 word)"
proof (rule be_decode_digits [where k = 8])
  show "unat v < 256 ^ 8" using unsigned_less [of v] by simp
  have "rev [0 ..< 8] = [7, 6, 5, 4, 3, 2, 1, 0 :: nat]" by (simp add: upt_rec)
  then show "map unat [ucast (drop_bit 56 v), ucast (drop_bit 48 v), ucast (drop_bit 40 v),
        ucast (drop_bit 32 v), ucast (drop_bit 24 v), ucast (drop_bit 16 v),
        ucast (drop_bit 8 v), ucast v :: byte]
      = map (\<lambda>i. unat v div 256 ^ i mod 256) (rev [0 ..< 8])"
    by (simp add: unat_byte_cast unat_drop_bit_div)
qed

text \<open>
  Claim C5. For every \<^verbatim>\<open>DownloadInfo\<close> (and every tracker state and environment),
  \<^verbatim>\<open>prepare_announce_input\<close> does not raise \<^verbatim>\<open>internal_error\<close> and leaves a write buffer of
  exactly 98 bytes, in which one reads back, in network byte order: the connection id
  (8 bytes) at offset 0, the action 1 (4) at 8, the transaction id (4) at 12, the info
  hash (20) at 16, the peer id (20) at 36, downloaded (8) at 56, left (8) at 64, uploaded
  (8) at 72, the event (4) at 80, the ip (4) at 84, the key (4) at 88, numwant (4) at 92
  and the port (2) at 96.
\<close>

theorem prepare_announce_input_layout:
  "fst (prepare_announce_input info env t) = None
   \<and> (let t' = snd (prepare_announce_input info env t); b = m_writeBuffer t' in
      length b = 98
      \<and> be_decode (field b 0 8) = unat (m_connectionId t)
      \<and> be_decode (field b 8 4) = 1
      \<and> be_decode (field b 12 4) = unat (random_uint32 env)
      \<and> field b 16 20 = Rep_hash_string (hash info)
      \<and> field b 36 20 = Rep_hash_string (local_id info)
      \<and> be_decode (field b 56 8) = unat (completed_adjusted info)
      \<and> be_decode (field b 64 8) = unat (slot_left info)
      \<and> be_decode (field b 72 8) = unat (uploaded_adjusted info)
      \<and> be_decode (field b 80 4) = unat (m_sendState t)
      \<and> be_decode (field b 84 4)
          = (case local_address env of af_inet a \<Rightarrow> unat a | _ \<Rightarrow> 0)
      \<and> be_decode (field b 88 4) = unat (key env)
      \<and> be_decode (field b 92 4) = unat (numwant env)
      \<and> be_decode (field b 96 2) = unat (listen_port env)
      \<and> m_action t' = 1 \<and> m_transactionId t' = random_uint32 env)"
proof -
  have h: "length (Rep_hash_string (hash info)) = 20"
    and p: "length (Rep_hash_string (local_id info)) = 20"
    using Rep_hash_string [of "hash info"] Rep_hash_string [of "local_id info"] by simp_all
  define ip where "ip = (case local_address env of af_inet a \<Rightarrow> a | _ \<Rightarrow> 0)"
  have ip: "unat ip = (case local_address env of af_inet a \<Rightarrow> unat a | _ \<Rightarrow> 0)"
    by (simp add: ip_def split: socket_address.split)
  have one: "be_decode [0, 0, 0, 1] = Suc 0"
    by (simp add: be_decode_def)
  show ?thesis
    unfolding prepare_announce_input_def Let_def ip_def [symmetric]
    using h p
    by (simp add: write_64_def write_32_def write_32_n_def write_16_def write_range_def
        size_end_def field_def be_decode_64 be_decode_32 be_decode_16 one ip)
qed

text \<open>The request of the fifth scenario of the specification, byte by byte.\<close>

lemma Rep_hash_string_of:
  "Rep_hash_string (hash_string_of bs) = (if length bs = 20 then bs else replicate 20 0)"
  by (simp add: hash_string_of_def Abs_hash_string_inverse)

lemma announce_request_bytes:
  "m_writeBuffer (snd (prepare_announce_input example_info example_announce_env example_tracker_udp))
   = [0x11, 0x22, 0x33, 0x44, 0x55, 0x66, 0x77, 0x88,
      0, 0, 0, 1,
      1, 2, 3, 4,
      0x01, 0x02, 0x03, 0x04, 0x05, 0x06, 0x07, 0x08, 0x09, 0x0A,
      0x0B, 0x0C, 0x0D, 0x0E, 0x0F, 0x10, 0x11, 0x12, 0x13, 0x14,
      0x21, 0x22, 0x23, 0x24, 0x25, 0x26, 0x27, 0x28, 0x29, 0x2A,
      0x2B, 0x2C, 0x2D, 0x2E, 0x2F, 0x30, 0x31, 0x32, 0x33, 0x34,
      0, 0, 0, 0, 0, 0, 0, 100,
      0, 0, 0, 0, 0, 0, 0, 200,
      0, 0, 0, 0, 0, 0, 0, 50,
      0, 0, 0, 1,
      0, 0, 0, 0,
      0xDE, 0xAD, 0xBE, 0xEF,
      0, 0, 0, 30,
      0x1A, 0xE1]"
  by (simp add: prepare_announce_input_def example_info_def example_announce_env_def
      example_tracker_udp_def Rep_hash_string_of write_64_def write_32_def write_32_n_def
      write_16_def write_range_def size_end_def Let_def drop_bit_eq_div)

theorem prepare_announce_input_layout_witness:
  "fst (prepare_announce_input example_info example_announce_env example_tracker_udp) = None
   \<and> length (m_writeBuffer (snd (prepare_announce_input example_info example_announce_env
        example_tracker_udp))) = 98
   \<and> field (m_writeBuffer (snd (prepare_announce_input example_info example_announce_env
        example_tracker_udp))) 88 4 = [0xDE, 0xAD, 0xBE, 0xEF]
   \<and> be_decode (field (m_writeBuffer (snd (prepare_announce_input example_info
        example_announce_env example_tracker_udp))) 96 2) = 6881"
proof -
  let ?b = "m_writeBuffer (snd (prepare_announce_input example_info example_announce_env
    example_tracker_udp))"
  note layout = prepare_announce_input_layout
    [of example_info example_announce_env example_tracker_udp, unfolded Let_def]
  from layout have "fst (prepare_announce_input example_info example_announce_env
      example_tracker_udp) = None"
    and "length ?b = 98"
    and "be_decode (field ?b 96 2) = unat (listen_port example_announce_env)"
    by simp_all
  moreover have "unat (listen_port example_announce_env) = 6881"
    by (simp add: example_announce_env_def)
  moreover have "field ?b 88 4 = [0xDE, 0xAD, 0xBE, 0xEF]"
    by (simp add: announce_request_bytes field_def)
  ultimately show ?thesis by simp
qed

section \<open>TrackerHttp: the intervals after a successful response\<close>

lemma process_success_normal_interval:
  "m_normal_interval (snd (process_success env obj t)) =
     (if has_key_value obj ''min interval''
      then (if has_key_value obj ''interval'' then get_key_value obj ''interval''
            else default_normal_interval env)
      else default_min_interval env)"
  by (simp add: process_success_def Let_def set_normal_interval_def set_min_interval_def
      split: sum.split option.split object.split)

lemma process_success_min_interval:
  "m_min_interval (snd (process_success env obj t)) =
     (if has_key_value obj ''min interval'' then get_key_value obj ''min interval''
      else m_min_interval t)"
  by (simp add: process_success_def Let_def set_normal_interval_def set_min_interval_def
      split: sum.split option.split object.split)

text \<open>
  Claim C7 says that after a response without \<^verbatim>\<open>min interval\<close> the minimum interval is
  the default minimum interval, and that the normal interval is the response's
  \<^verbatim>\<open>interval\<close>. The code calls \<^verbatim>\<open>set_normal_interval(default_min_interval)\<close> in that
  branch: on the response \<^verbatim>\<open>d8:intervali1800e5:peers0:e\<close> the handler succeeds, the
  normal interval becomes the default minimum interval 600 instead of 1800, and the
  minimum interval keeps its old value 2 instead of becoming 600.
\<close>

theorem process_success_min_interval_slip:
  "fst (process_success example_http_env example_response example_tracker_http)
     = receive_success []
   \<and> has_key_value example_response ''interval''
   \<and> get_key_value example_response ''interval'' = 1800
   \<and> \<not> has_key example_response ''min interval''
   \<and> m_normal_interval (snd (process_success example_http_env example_response
        example_tracker_http)) = 600
   \<and> m_min_interval (snd (process_success example_http_env example_response
        example_tracker_http)) = 2"
  by (simp add: process_success_def example_http_env_def example_response_def
      example_tracker_http_def has_key_value_def has_key_def has_key_string_def
      get_key_value_def set_normal_interval_def set_min_interval_def Let_def)

section \<open>ResourceManager: group pointers and priorities\<close>

lemmas manager_defs = push_group_def insert_entry_def erase_def set_group_def
  find_group_end_def vector_insert_def vector_erase_def update_group_iterators_def
  for_each_def set_null_def inc_iterators_def dec_iterators_def ptr_add_def
  new_choke_group_def new_resource_manager_def validate_group_iterators_def

text \<open>
  Claim C2 says that in every state reached by \<^verbatim>\<open>push_group\<close>, \<^verbatim>\<open>insert\<close>, \<^verbatim>\<open>erase\<close> and
  \<^verbatim>\<open>set_group\<close> the pointers of every group are null if and only if there is no entry.
  \<^verbatim>\<open>erase\<close>, when it removes the last entry, resets the pointers of the entry's group and
  of the groups after it only. After making the groups "a" and "b", inserting a
  download into "b" and erasing it, every call having returned normally, there is no
  entry left and both pointers of "a" still point to the start of the vector; the
  manager's own \<^verbatim>\<open>validate_group_iterators\<close> raises \<^verbatim>\<open>internal_error\<close> on this state.
\<close>

theorem erase_last_entry_leaves_pointers:
  "run insert_erase_calls new_resource_manager =
     ([None, None, None, None],
      \<lparr>entries = [],
       groups = [\<lparr>m_name = ''a'', m_first = Some 0, m_last = Some 0\<rparr>,
                 \<lparr>m_name = ''b'', m_first = None, m_last = None\<rparr>]\<rparr>)
   \<and> validate_group_iterators (snd (run insert_erase_calls new_resource_manager))
       = Some internal_error"
  by (simp add: insert_erase_calls_def manager_defs find_if.simps Let_def)




section \<open>ResourceManager: what the group pointers keep\<close>

text \<open>
  Apart from the state that \<^verbatim>\<open>erase\<close> leaves when it removes the last entry, the pointers
  of the groups stay exact: the lemmas of this section show that every call that
  returns normally keeps the invariant \<open>manager_invariant\<close>, which says nothing about
  the pointers of a manager without entries.
\<close>

lemma find_if_eqI:
  "i \<le> n \<Longrightarrow> n \<le> length xs \<Longrightarrow> (\<forall>j. i \<le> j \<and> j < n \<longrightarrow> \<not> p (xs ! j)) \<Longrightarrow>
     (n < length xs \<longrightarrow> p (xs ! n)) \<Longrightarrow> find_if p xs i = n"
proof (induction p xs i rule: find_if.induct)
  case (1 p xs i)
  show ?case
  proof (cases "i = n")
    case True
    with 1 show ?thesis by (subst find_if.simps) auto
  next
    case False
    with "1.prems" have lt: "i < n" "i < length xs" "\<not> p (xs ! i)" by auto
    then have "find_if p xs (Suc i) = n"
      using "1.prems" by (intro "1.IH") auto
    with lt show ?thesis by (subst find_if.simps) simp
  qed
qed

lemma filter_sorted_takeWhile:
  "sorted ys \<Longrightarrow> filter (\<lambda>y. y < g) ys = takeWhile (\<lambda>y. y < g) (ys :: nat list)"
proof (induction ys)
  case Nil
  show ?case by simp
next
  case (Cons y ys)
  show ?case
  proof (cases "y < g")
    case True
    with Cons show ?thesis by simp
  next
    case False
    with Cons.prems have "\<forall>z \<in> set ys. \<not> z < g" by auto
    with False show ?thesis by (simp add: filter_empty_conv)
  qed
qed

lemma sorted_less_iff_count:
  assumes "sorted (ys :: nat list)" and "j < length ys"
  shows "ys ! j < g \<longleftrightarrow> j < length (filter (\<lambda>y. y < g) ys)"
proof
  assume "ys ! j < g"
  then have "\<forall>i < Suc j. ys ! i < g"
    using assms by (metis le_less_trans less_Suc_eq_le sorted_nth_mono)
  then have "Suc j \<le> length (takeWhile (\<lambda>y. y < g) ys)"
    using assms(2) by (intro length_takeWhile_less_P_nth) auto
  then show "j < length (filter (\<lambda>y. y < g) ys)"
    using assms(1) by (simp add: filter_sorted_takeWhile)
next
  assume "j < length (filter (\<lambda>y. y < g) ys)"
  then have "j < length (takeWhile (\<lambda>y. y < g) ys)"
    using assms(1) by (simp add: filter_sorted_takeWhile)
  then show "ys ! j < g"
    by (metis nth_mem set_takeWhileD takeWhile_nth)
qed

lemma range_start_map:
  "range_start es g = length (filter (\<lambda>y. y < g) (map group_of es))"
  by (simp add: range_start_def filter_map o_def)

lemma group_less_iff_range_start:
  assumes "sorted (map group_of es)" and "j < length es"
  shows "group_of (es ! j) < g \<longleftrightarrow> j < range_start es g"
  using sorted_less_iff_count [OF assms(1), of j g] assms(2)
  by (simp add: range_start_map)

lemma range_start_le_length: "range_start es g \<le> length es"
  by (simp add: range_start_def)

lemma range_start_mono: "g \<le> g' \<Longrightarrow> range_start es g \<le> range_start es g'"
proof -
  assume "g \<le> g'"
  then have "filter (\<lambda>e. group_of e < g) es
      = filter (\<lambda>e. group_of e < g) (filter (\<lambda>e. group_of e < g') es)"
    by (auto intro: filter_cong)
  then show ?thesis
    unfolding range_start_def by (metis length_filter_le)
qed

text \<open>In a sorted vector the entries of a group are those between its two positions.\<close>

lemma group_range:
  assumes "sorted (map group_of es)" and "j < length es"
  shows "group_of (es ! j) = g \<longleftrightarrow> range_start es g \<le> j \<and> j < range_start es (Suc g)"
  using group_less_iff_range_start [OF assms, of g]
    group_less_iff_range_start [OF assms, of "Suc g"]
  by auto

lemma find_group_upper:
  assumes "sorted (map group_of es)"
  shows "find_if (\<lambda>v. g < group_of v) es (range_start es g) = range_start es (Suc g)"
proof (rule find_if_eqI)
  show "range_start es g \<le> range_start es (Suc g)"
    by (rule range_start_mono) simp
  show "range_start es (Suc g) \<le> length es"
    by (rule range_start_le_length)
  show "\<forall>j. range_start es g \<le> j \<and> j < range_start es (Suc g) \<longrightarrow> \<not> g < group_of (es ! j)"
    using group_less_iff_range_start [OF assms, of _ "Suc g"] range_start_le_length [of es "Suc g"]
    by (metis less_Suc_eq_le less_le_trans not_less)
  show "range_start es (Suc g) < length es \<longrightarrow> g < group_of (es ! range_start es (Suc g))"
    using group_less_iff_range_start [OF assms, of "range_start es (Suc g)" "Suc g"]
    by auto
qed

lemma find_group_upper_from_start:
  assumes "sorted (map group_of es)"
  shows "find_if (\<lambda>v. g < group_of v) es 0 = range_start es (Suc g)"
proof (rule find_if_eqI)
  show "range_start es (Suc g) \<le> length es"
    by (rule range_start_le_length)
  show "\<forall>j. 0 \<le> j \<and> j < range_start es (Suc g) \<longrightarrow> \<not> g < group_of (es ! j)"
    using group_less_iff_range_start [OF assms, of _ "Suc g"] range_start_le_length [of es "Suc g"]
    by (metis less_Suc_eq_le less_le_trans not_less)
  show "range_start es (Suc g) < length es \<longrightarrow> g < group_of (es ! range_start es (Suc g))"
    using group_less_iff_range_start [OF assms, of "range_start es (Suc g)" "Suc g"]
    by auto
qed simp

lemma group_less_word: "(g < m_group v) = (unat g < group_of v)"
  by (simp add: group_of_def word_less_nat_alt)

lemma group_less_int: "(int gi < uint (m_group v)) = (gi < group_of v)"
  by (simp add: group_of_def) (metis of_nat_less_iff of_nat_unat uint_nat)

lemma find_group_end_sorted:
  assumes "sorted (map group_of (entries rm))"
  shows "find_group_end rm grp = range_start (entries rm) (Suc (unat grp))"
  using find_group_upper_from_start [OF assms, of "unat grp"]
  by (simp add: find_group_end_def group_less_word)

lemma update_loop_exact:
  assumes "sorted (map group_of es)"
  shows "length (update_group_iterators_loop es (range_start es gi) gi gs) = length gs
    \<and> (\<forall>j < length gs.
         update_group_iterators_loop es (range_start es gi) gi gs ! j
           = (gs ! j)\<lparr>m_first := Some (int (range_start es (gi + j))),
                       m_last := Some (int (range_start es (Suc (gi + j))))\<rparr>)"
proof (induction gs arbitrary: gi)
  case Nil
  show ?case by simp
next
  case (Cons g gs)
  have next_itr: "find_if (\<lambda>v. int gi < uint (m_group v)) es (range_start es gi)
      = range_start es (Suc gi)"
    using find_group_upper [OF assms, of gi] by (simp add: group_less_int)
  have step: "update_group_iterators_loop es (range_start es gi) gi (g # gs)
      = g\<lparr>m_first := Some (int (range_start es gi)),
            m_last := Some (int (range_start es (Suc gi)))\<rparr>
        # update_group_iterators_loop es (range_start es (Suc gi)) (Suc gi) gs"
    by (simp add: next_itr Let_def)
  show ?case
    unfolding step using Cons.IH [of "Suc gi"]
    by (auto simp: nth_Cons split: nat.split)
qed

lemma count_vector_erase:
  "i < length xs \<Longrightarrow>
     length (filter P xs) = length (filter P (vector_erase i xs)) + (if P (xs ! i) then 1 else 0)"
proof -
  assume "i < length xs"
  then have "xs = take i xs @ xs ! i # drop (Suc i) xs"
    by (rule id_take_nth_drop)
  then have "filter P xs = filter P (take i xs) @ filter P [xs ! i] @ filter P (drop (Suc i) xs)"
    by (metis append_Cons append_Nil filter_append)
  then show ?thesis
    by (simp add: vector_erase_def)
qed

lemma count_vector_insert:
  "length (filter P (vector_insert pos x xs)) = length (filter P xs) + (if P x then 1 else 0)"
proof -
  have "length (filter P xs) = length (filter P (take pos xs)) + length (filter P (drop pos xs))"
    by (metis append_take_drop_id filter_append length_append)
  then show ?thesis
    by (simp add: vector_insert_def)
qed

lemma range_start_erase:
  "i < length es \<Longrightarrow>
     range_start es g = range_start (vector_erase i es) g + (if group_of (es ! i) < g then 1 else 0)"
  unfolding range_start_def by (rule count_vector_erase)

lemma range_start_insert:
  "range_start (vector_insert pos e es) g = range_start es g + (if group_of e < g then 1 else 0)"
  unfolding range_start_def by (rule count_vector_insert)

lemma for_each_length: "a \<le> b \<Longrightarrow> b \<le> length xs \<Longrightarrow> length (for_each a b f xs) = length xs"
  by (simp add: for_each_def)

lemma for_each_nth:
  assumes "a \<le> b" and "b \<le> length xs" and "j < length xs"
  shows "for_each a b f xs ! j = (if a \<le> j \<and> j < b then f (xs ! j) else xs ! j)"
proof -
  consider "j < a" | "a \<le> j" "j < b" | "b \<le> j" by linarith
  then show ?thesis
  proof cases
    case 1
    with assms show ?thesis by (simp add: for_each_def nth_append)
  next
    case 2
    then have "j - a < b - a" by linarith
    with 2 assms show ?thesis by (simp add: for_each_def nth_append)
  next
    case 3
    then have "\<not> j - a < b - a" by linarith
    with 3 assms show ?thesis by (simp add: for_each_def nth_append max_def)
  qed
qed

lemma sorted_vector_erase:
  assumes "sorted (map group_of es)"
  shows "sorted (map group_of (vector_erase i es))"
proof -
  let ?ys = "map group_of es"
  have "sorted (take i ?ys @ drop i ?ys)"
    using assms by simp
  then have "\<forall>x \<in> set (take i ?ys). \<forall>y \<in> set (drop i ?ys). x \<le> y"
    unfolding sorted_append by blast
  moreover have "set (drop (Suc i) ?ys) \<subseteq> set (drop i ?ys)"
    by (rule set_drop_subset_set_drop) simp
  ultimately have "\<forall>x \<in> set (take i ?ys). \<forall>y \<in> set (drop (Suc i) ?ys). x \<le> y"
    by blast
  moreover have "sorted (take i ?ys)" "sorted (drop (Suc i) ?ys)"
    using assms by (simp_all add: sorted_wrt_take sorted_wrt_drop)
  ultimately have "sorted (take i (map group_of es) @ drop (Suc i) (map group_of es))"
    by (simp only: sorted_append simp_thms)
  then show ?thesis
    by (simp add: vector_erase_def take_map drop_map)
qed

lemma pointers_exact_iff:
  "pointers_exact rm \<longleftrightarrow>
     (\<forall>g < length (groups rm).
        m_first (groups rm ! g) = Some (int (range_start (entries rm) g))
        \<and> m_last (groups rm ! g) = Some (int (range_start (entries rm) (Suc g))))"
  by (auto simp: pointers_exact_def list_all_iff)

lemma manager_invariant_iff:
  "manager_invariant rm \<longleftrightarrow>
     sorted (map group_of (entries rm))
     \<and> (\<forall>e \<in> set (entries rm). group_of e < length (groups rm))
     \<and> (entries rm \<noteq> [] \<longrightarrow> pointers_exact rm)"
  by (auto simp: manager_invariant_def list_all_iff)

lemma range_start_all:
  "\<forall>e \<in> set es. group_of e < g \<Longrightarrow> range_start es g = length es"
  by (simp add: range_start_def)

lemma range_start_0: "range_start es 0 = 0"
  by (simp add: range_start_def)

lemma sorted_vector_insert:
  assumes "sorted (map group_of es)"
  shows "sorted (map group_of (vector_insert (range_start es (Suc (group_of e))) e es))"
proof -
  let ?pos = "range_start es (Suc (group_of e))"
  let ?ys = "map group_of es"
  have le: "?pos \<le> length es" by (rule range_start_le_length)
  have before: "\<forall>x \<in> set (take ?pos ?ys). x \<le> group_of e"
  proof
    fix x assume "x \<in> set (take ?pos ?ys)"
    then obtain j where j: "j < ?pos" "x = ?ys ! j"
      using le by (auto simp: in_set_conv_nth)
    with le have "group_of (es ! j) < Suc (group_of e)"
      using group_less_iff_range_start [OF assms, of j "Suc (group_of e)"] by simp
    with j le show "x \<le> group_of e" by simp
  qed
  have after: "\<forall>y \<in> set (drop ?pos ?ys). group_of e \<le> y"
  proof
    fix y assume "y \<in> set (drop ?pos ?ys)"
    then obtain j where j: "j < length es - ?pos" "y = ?ys ! (?pos + j)"
      by (auto simp: in_set_conv_nth)
    then have "\<not> group_of (es ! (?pos + j)) < Suc (group_of e)"
      using group_less_iff_range_start [OF assms, of "?pos + j" "Suc (group_of e)"] by simp
    with j show "group_of e \<le> y" by simp
  qed
  have "sorted (take ?pos ?ys @ drop ?pos ?ys)"
    using assms by simp
  then have parts: "sorted (take ?pos ?ys)" "sorted (drop ?pos ?ys)"
    "\<forall>x \<in> set (take ?pos ?ys). \<forall>y \<in> set (drop ?pos ?ys). x \<le> y"
    unfolding sorted_append by blast+
  have "sorted (take ?pos ?ys @ group_of e # drop ?pos ?ys)"
    unfolding sorted_append sorted_simps using parts before after by auto
  then show ?thesis
    by (simp add: vector_insert_def take_map drop_map)
qed

lemma set_vector_erase: "set (vector_erase i xs) \<subseteq> set xs"
  unfolding vector_erase_def by (auto dest: in_set_takeD in_set_dropD)

lemma set_vector_insert: "set (vector_insert pos x xs) = insert x (set xs)"
proof -
  have "set xs = set (take pos xs) \<union> set (drop pos xs)"
    by (metis append_take_drop_id set_append)
  then show ?thesis
    by (auto simp: vector_insert_def)
qed

lemma push_group_invariant:
  assumes "manager_invariant rm" and "push_group name rm = (None, rm')"
  shows "manager_invariant rm'"
proof -
  let ?es = "entries rm" and ?gs = "groups rm"
  from assms(1) have inv: "sorted (map group_of ?es)" "\<forall>e \<in> set ?es. group_of e < length ?gs"
    "?es \<noteq> [] \<longrightarrow> pointers_exact rm"
    by (simp_all add: manager_invariant_iff)
  define g where "g = (if ?es \<noteq> []
      then new_choke_group\<lparr>m_name := name, m_first := Some (int (length ?es)),
        m_last := Some (int (length ?es))\<rparr>
      else new_choke_group\<lparr>m_name := name\<rparr>)"
  from assms(2) have rm': "rm' = rm\<lparr>groups := ?gs @ [g]\<rparr>"
    by (auto simp: push_group_def Let_def g_def split: if_splits)
  have all: "range_start ?es (length ?gs) = length ?es"
    "range_start ?es (Suc (length ?gs)) = length ?es"
    using inv(2) by (simp_all add: range_start_all less_Suc_eq)
  have "pointers_exact rm'" if "?es \<noteq> []"
  proof -
    from that inv(3) have ex: "pointers_exact rm" by simp
    show ?thesis
      unfolding pointers_exact_iff
    proof (intro allI impI)
      fix k assume "k < length (groups rm')"
      then have "k < length ?gs \<or> k = length ?gs"
        by (auto simp: rm')
      then consider "k < length ?gs" | "k = length ?gs"
        by blast
      then show "m_first (groups rm' ! k) = Some (int (range_start (entries rm') k))
          \<and> m_last (groups rm' ! k) = Some (int (range_start (entries rm') (Suc k)))"
      proof cases
        case 1
        with ex show ?thesis by (simp add: rm' nth_append pointers_exact_iff)
      next
        case 2
        with that all show ?thesis by (simp add: rm' nth_append g_def)
      qed
    qed
  qed
  with inv show ?thesis
    by (auto simp: manager_invariant_iff rm' less_Suc_eq)
qed

lemma insert_entry_invariant:
  assumes "manager_invariant rm" and "insert_entry e rm = (Inr itr, rm')"
  shows "manager_invariant rm'"
proof -
  let ?es = "entries rm" and ?gs = "groups rm"
  let ?es' = "vector_insert (find_group_end rm (m_group e)) e ?es"
  from assms(1) have inv: "sorted (map group_of ?es)" "\<forall>e \<in> set ?es. group_of e < length ?gs"
    by (simp_all add: manager_invariant_iff)
  from assms(2) have valid: "group_of e < length ?gs"
    and rm': "rm' = rm\<lparr>entries := ?es', groups := update_group_iterators_loop ?es' 0 0 ?gs\<rparr>"
    by (auto simp: insert_entry_def Let_def update_group_iterators_def group_of_def
        split: if_splits)
  have sorted': "sorted (map group_of ?es')"
    using sorted_vector_insert [OF inv(1), of e]
    by (simp add: find_group_end_sorted [OF inv(1)] group_of_def)
  note loop = update_loop_exact [OF sorted', of 0 ?gs, unfolded range_start_0]
  have "pointers_exact rm'"
    unfolding pointers_exact_iff using loop by (simp add: rm')
  moreover have "\<forall>x \<in> set ?es'. group_of x < length (groups rm')"
    using inv(2) valid loop by (simp add: rm' set_vector_insert)
  ultimately show ?thesis
    using sorted' by (simp add: manager_invariant_iff rm')
qed

lemma erase_invariant:
  assumes "manager_invariant rm" and "erase d rm = (None, rm')"
  shows "manager_invariant rm'"
proof -
  let ?es = "entries rm" and ?gs = "groups rm"
  let ?itr = "find_if (\<lambda>e. d = m_download e) ?es 0"
  let ?grp = "group_of (?es ! ?itr)"
  let ?es' = "vector_erase ?itr ?es"
  from assms(1) have inv: "sorted (map group_of ?es)" "\<forall>e \<in> set ?es. group_of e < length ?gs"
    "?es \<noteq> [] \<longrightarrow> pointers_exact rm"
    by (simp_all add: manager_invariant_iff)
  from assms(2) have found: "?itr \<noteq> length ?es" and grp: "?grp < length ?gs"
    by (auto simp: erase_def Let_def group_of_def split: if_splits)
  have "?itr \<le> length ?es" by (rule find_if_le) simp
  with found have itr: "?itr < length ?es" by simp
  define gs1 where "gs1 = ?gs[?grp := (?gs ! ?grp)\<lparr>m_last := ptr_add (m_last (?gs ! ?grp)) (- 1)\<rparr>]"
  define gs' where "gs' = (if length ?es = 1 then for_each ?grp (length ?gs) set_null ?gs
      else for_each (Suc ?grp) (length gs1) dec_iterators gs1)"
  have "erase d rm = (None, rm\<lparr>groups := gs', entries := ?es'\<rparr>)"
    using found grp by (simp add: erase_def Let_def group_of_def gs'_def gs1_def)
  with assms(2) have rm': "rm' = rm\<lparr>groups := gs', entries := ?es'\<rparr>"
    by simp
  have len: "length gs' = length ?gs"
    using grp by (simp add: gs'_def gs1_def for_each_length)
  have sorted': "sorted (map group_of ?es')"
    by (rule sorted_vector_erase [OF inv(1)])
  have valid': "\<forall>e \<in> set ?es'. group_of e < length gs'"
    using inv(2) set_vector_erase [of ?itr ?es] by (auto simp: len)
  have "pointers_exact rm'" if ne: "?es' \<noteq> []"
  proof -
    from itr inv(3) have ex: "pointers_exact rm" by auto
    have "length ?es \<noteq> 1"
      using ne itr by (cases ?es) (auto simp: vector_erase_def)
    then have gs': "gs' = for_each (Suc ?grp) (length ?gs) dec_iterators gs1"
      by (simp add: gs'_def gs1_def)
    note rs = range_start_erase [OF itr]
    show ?thesis
      unfolding pointers_exact_iff
    proof (intro allI impI)
      fix k assume "k < length (groups rm')"
      then have k: "k < length ?gs" by (simp add: rm' len)
      with ex have old: "m_first (?gs ! k) = Some (int (range_start ?es k))"
        "m_last (?gs ! k) = Some (int (range_start ?es (Suc k)))"
        by (simp_all add: pointers_exact_iff)
      have nth: "gs' ! k = (if Suc ?grp \<le> k then dec_iterators (gs1 ! k) else gs1 ! k)"
        using k grp by (simp add: gs' gs1_def for_each_nth)
      have nth1: "gs1 ! k = (if k = ?grp
          then (?gs ! k)\<lparr>m_last := ptr_add (m_last (?gs ! k)) (- 1)\<rparr> else ?gs ! k)"
        using k by (auto simp: gs1_def)
      show "m_first (groups rm' ! k) = Some (int (range_start (entries rm') k))
          \<and> m_last (groups rm' ! k) = Some (int (range_start (entries rm') (Suc k)))"
        using rs [of k] rs [of "Suc k"] old
        by (auto simp: rm' nth nth1 dec_iterators_def ptr_add_def)
    qed
  qed
  with sorted' valid' show ?thesis
    by (auto simp: manager_invariant_iff rm')
qed

lemma set_group_invariant:
  assumes "manager_invariant rm" and "set_group itr grp rm = (None, rm')"
  shows "manager_invariant rm'"
proof (cases "itr < length (entries rm) \<and> m_group (entries rm ! itr) \<noteq> grp")
  case False
  with assms show ?thesis
    by (auto simp: set_group_def split: if_splits)
next
  case True
  let ?es = "entries rm" and ?gs = "groups rm"
  let ?src = "group_of (?es ! itr)" and ?dest = "unat grp"
  from True have itr: "itr < length ?es" and ne: "m_group (?es ! itr) \<noteq> grp" by simp_all
  from assms(1) have inv: "sorted (map group_of ?es)" "\<forall>e \<in> set ?es. group_of e < length ?gs"
    "?es \<noteq> [] \<longrightarrow> pointers_exact rm"
    by (simp_all add: manager_invariant_iff)
  from itr inv have ex: "pointers_exact rm" and src: "?src < length ?gs"
    by auto
  from assms(2) itr ne have dest: "?dest < length ?gs"
    by (auto simp: set_group_def split: if_splits)
  have neq: "?src \<noteq> ?dest"
    using ne by (auto simp: group_of_def dest: unsigned_word_eqI)
  define entry where "entry = (?es ! itr)\<lparr>m_group := grp\<rparr>"
  define es1 where "es1 = vector_erase itr ?es"
  define es' where "es' = vector_insert (find_group_end (rm\<lparr>entries := es1\<rparr>) grp) entry es1"
  have g_entry: "group_of entry = ?dest"
    by (simp add: entry_def group_of_def)
  have sorted1: "sorted (map group_of es1)"
    unfolding es1_def by (rule sorted_vector_erase [OF inv(1)])
  have pos: "find_group_end (rm\<lparr>entries := es1\<rparr>) grp = range_start es1 (Suc (group_of entry))"
    using find_group_end_sorted [of "rm\<lparr>entries := es1\<rparr>" grp] sorted1 by (simp add: g_entry)
  have sorted': "sorted (map group_of es')"
    unfolding es'_def pos by (rule sorted_vector_insert [OF sorted1])
  have rs: "int (range_start es' k) = int (range_start ?es k)
      - (if ?src < k then 1 else 0) + (if ?dest < k then 1 else 0)" for k
    using range_start_erase [OF itr, of k]
      range_start_insert [of "find_group_end (rm\<lparr>entries := es1\<rparr>) grp" entry es1 k]
    by (simp add: es'_def es1_def g_entry)
  define gs' where "gs' =
    (if ?dest < ?src then
       (let gs = ?gs[?dest := (?gs ! ?dest)\<lparr>m_last := ptr_add (m_last (?gs ! ?dest)) 1\<rparr>];
            gs = for_each (Suc ?dest) ?src inc_iterators gs
        in gs[?src := (gs ! ?src)\<lparr>m_first := ptr_add (m_first (gs ! ?src)) 1\<rparr>])
     else
       (let gs = ?gs[?src := (?gs ! ?src)\<lparr>m_last := ptr_add (m_last (?gs ! ?src)) (- 1)\<rparr>];
            gs = for_each (Suc ?src) ?dest dec_iterators gs
        in gs[?dest := (gs ! ?dest)\<lparr>m_first := ptr_add (m_first (gs ! ?dest)) (- 1)\<rparr>]))"
  have "set_group itr grp rm = (None, rm\<lparr>entries := es', groups := gs'\<rparr>)"
    using itr ne dest src
    by (simp add: set_group_def Let_def group_of_def gs'_def es'_def es1_def entry_def)
  with assms(2) have rm': "rm' = rm\<lparr>entries := es', groups := gs'\<rparr>"
    by simp
  have len: "length gs' = length ?gs"
    using src dest neq by (auto simp: gs'_def Let_def for_each_length)
  have valid': "\<forall>e \<in> set es'. group_of e < length gs'"
    using inv(2) set_vector_erase [of itr ?es] dest
    by (auto simp: es'_def es1_def set_vector_insert len g_entry)
  have "pointers_exact rm'"
    unfolding pointers_exact_iff
  proof (intro allI impI)
    fix k assume "k < length (groups rm')"
    then have k: "k < length ?gs" by (simp add: rm' len)
    with ex have old: "m_first (?gs ! k) = Some (int (range_start ?es k))"
      "m_last (?gs ! k) = Some (int (range_start ?es (Suc k)))"
      by (simp_all add: pointers_exact_iff)
    have first: "m_first (gs' ! k) = Some (int (range_start ?es k)
        - (if ?src < k then 1 else 0) + (if ?dest < k then 1 else 0))"
      using k src dest neq old
      by (auto simp: gs'_def Let_def for_each_nth for_each_length nth_list_update
          inc_iterators_def dec_iterators_def ptr_add_def)
    have last: "m_last (gs' ! k) = Some (int (range_start ?es (Suc k))
        - (if ?src < Suc k then 1 else 0) + (if ?dest < Suc k then 1 else 0))"
    proof -
      consider "k = ?dest" | "k = ?src" | "k \<noteq> ?dest" "k \<noteq> ?src"
        by blast
      then show ?thesis
      proof cases
        case 1
        with k src neq old show ?thesis
          by (auto simp: gs'_def Let_def for_each_nth for_each_length nth_list_update
              inc_iterators_def dec_iterators_def ptr_add_def)
      next
        case 2
        with k dest neq old show ?thesis
          by (auto simp: gs'_def Let_def for_each_nth for_each_length nth_list_update
              inc_iterators_def dec_iterators_def ptr_add_def)
      next
        case 3
        with k src dest neq old show ?thesis
          by (auto simp: gs'_def Let_def for_each_nth for_each_length nth_list_update
              inc_iterators_def dec_iterators_def ptr_add_def)
      qed
    qed
    show "m_first (groups rm' ! k) = Some (int (range_start (entries rm') k))
        \<and> m_last (groups rm' ! k) = Some (int (range_start (entries rm') (Suc k)))"
      using first last rs [of k] rs [of "Suc k"] by (simp add: rm')
  qed
  with sorted' valid' show ?thesis
    by (simp add: manager_invariant_iff rm')
qed

lemma new_resource_manager_invariant: "manager_invariant new_resource_manager"
  by (simp add: manager_invariant_def new_resource_manager_def)

lemma call_invariant:
  assumes "manager_invariant rm" and "call c rm = (None, rm')"
  shows "manager_invariant rm'"
proof (cases c)
  case (Push_group name)
  with assms show ?thesis by (auto intro: push_group_invariant)
next
  case (Insert entry)
  with assms obtain itr where "insert_entry entry rm = (Inr itr, rm')"
    by (auto split: prod.splits sum.splits)
  with assms(1) show ?thesis by (rule insert_entry_invariant)
next
  case (Erase d)
  with assms show ?thesis by (auto intro: erase_invariant)
next
  case (Set_group itr grp)
  with assms show ?thesis by (auto intro: set_group_invariant)
qed

lemma call_raised_unchanged:
  assumes "manager_invariant rm" and "call c rm = (Some e, rm')" and "e \<noteq> out_of_range"
  shows "rm' = rm"
proof (cases c)
  case (Push_group name)
  with assms show ?thesis by (auto simp: push_group_def Let_def split: if_splits)
next
  case (Insert entry)
  with assms show ?thesis
    by (auto simp: insert_entry_def Let_def split: if_splits prod.splits sum.splits)
next
  case (Erase d)
  with assms show ?thesis by (auto simp: erase_def Let_def split: if_splits)
next
  case (Set_group itr grp)
  have "group_of (entries rm ! itr) < length (groups rm)" if "itr < length (entries rm)"
    using assms(1) that by (simp add: manager_invariant_iff)
  with Set_group assms(2) show ?thesis
    by (auto simp: set_group_def Let_def group_of_def split: if_splits)
qed

text \<open>
  As long as no \<^verbatim>\<open>insert\<close> names a group that does not exist, every state that a sequence
  of calls reaches from a new manager satisfies the invariant.
\<close>

lemma run_invariant:
  assumes "manager_invariant rm" and "run cs rm = (es, rm')" and "Some out_of_range \<notin> set es"
  shows "manager_invariant rm'"
  using assms
proof (induction cs arbitrary: rm es rm')
  case Nil
  then show ?case by simp
next
  case (Cons c cs)
  obtain e rm1 where c: "call c rm = (e, rm1)" by (cases "call c rm")
  obtain es1 rm2 where cs: "run cs rm1 = (es1, rm2)" by (cases "run cs rm1")
  from Cons.prems(2) c cs have es: "es = e # es1" and rm': "rm' = rm2" by simp_all
  have "manager_invariant rm1"
  proof (cases e)
    case None
    with c Cons.prems(1) show ?thesis by (auto intro: call_invariant)
  next
    case (Some err)
    with es Cons.prems(3) have "err \<noteq> out_of_range" by auto
    with c Some Cons.prems(1) have "rm1 = rm" by (auto intro: call_raised_unchanged)
    with Cons.prems(1) show ?thesis by simp
  qed
  then have "manager_invariant rm2"
    using cs by (rule Cons.IH) (use es Cons.prems(3) in auto)
  with rm' show ?case by simp
qed

text \<open>
  What the invariant says about a group while there is an entry: its two pointers are
  not null and delimit exactly the entries of the group.
\<close>

lemma manager_invariant_delimits:
  assumes "manager_invariant rm" and "entries rm \<noteq> []" and "g < length (groups rm)"
  shows "\<exists>f l. m_first (groups rm ! g) = Some (int f) \<and> m_last (groups rm ! g) = Some (int l)
    \<and> f \<le> l \<and> l \<le> length (entries rm)
    \<and> (\<forall>j < length (entries rm). group_of (entries rm ! j) = g \<longleftrightarrow> f \<le> j \<and> j < l)"
proof -
  from assms have s: "sorted (map group_of (entries rm))" and ex: "pointers_exact rm"
    by (simp_all add: manager_invariant_iff)
  from ex assms(3) have "m_first (groups rm ! g) = Some (int (range_start (entries rm) g))"
    "m_last (groups rm ! g) = Some (int (range_start (entries rm) (Suc g)))"
    by (simp_all add: pointers_exact_iff)
  moreover have "range_start (entries rm) g \<le> range_start (entries rm) (Suc g)"
    by (rule range_start_mono) simp
  moreover have "range_start (entries rm) (Suc g) \<le> length (entries rm)"
    by (rule range_start_le_length)
  moreover have "\<forall>j < length (entries rm). group_of (entries rm ! j) = g \<longleftrightarrow>
      range_start (entries rm) g \<le> j \<and> j < range_start (entries rm) (Suc g)"
    using group_range [OF s] by blast
  ultimately show ?thesis by blast
qed

lemma validate_loop_exact:
  assumes "sorted (map group_of es)"
  shows "(\<forall>j < length gs. m_first (gs ! j) = Some (int (range_start es (gi + j)))
      \<and> m_last (gs ! j) = Some (int (range_start es (Suc (gi + j))))) \<Longrightarrow>
    validate_loop es (range_start es gi) gi gs = None"
proof (induction gs arbitrary: gi)
  case Nil
  show ?case by simp
next
  case (Cons g gs)
  have next_itr: "find_if (\<lambda>v. int gi < uint (m_group v)) es (range_start es gi)
      = range_start es (Suc gi)"
    using find_group_upper [OF assms, of gi] by (simp add: group_less_int)
  from Cons.prems have head: "m_first g = Some (int (range_start es gi))"
    "m_last g = Some (int (range_start es (Suc gi)))"
    by force+
  have "validate_loop es (range_start es (Suc gi)) (Suc gi) gs = None"
  proof (rule Cons.IH, intro allI impI)
    fix j assume "j < length gs"
    with Cons.prems [rule_format, of "Suc j"]
    show "m_first (gs ! j) = Some (int (range_start es (Suc gi + j)))
        \<and> m_last (gs ! j) = Some (int (range_start es (Suc (Suc gi + j))))"
      by simp
  qed
  with head next_itr show ?case by (simp add: Let_def)
qed

lemma manager_invariant_validates:
  assumes "manager_invariant rm" and "entries rm \<noteq> []"
  shows "validate_group_iterators rm = None"
proof -
  from assms have s: "sorted (map group_of (entries rm))" and ex: "pointers_exact rm"
    by (simp_all add: manager_invariant_iff)
  from validate_loop_exact [OF s, of "groups rm" 0] ex
  have "validate_loop (entries rm) 0 0 (groups rm) = None"
    by (simp add: pointers_exact_iff range_start_0)
  with assms(2) show ?thesis by (simp add: validate_group_iterators_def)
qed

section \<open>TransferList: the verdicts of the hash check\<close>

text \<open>
  Claim C10. For every index that no block list of the transfer list has,
  \<^verbatim>\<open>hash_failed\<close> raises \<^verbatim>\<open>internal_error\<close> and changes nothing: the transfer list (its
  block lists with their failed lists, both counters, the completed list and the list
  of the slots called so far) and the chunk are what they were.
\<close>

theorem hash_failed_unknown_index:
  assumes "\<forall>bl \<in> set (block_lists tlist). index bl \<noteq> idx"
  shows "hash_failed daf idx c tlist = (Some internal_error, c, tlist)"
proof -
  have "find_tl idx tlist = length (block_lists tlist)"
    unfolding find_tl_def find_if_end_iff using assms by auto
  then show ?thesis
    by (simp add: hash_failed_def)
qed

theorem hash_failed_unknown_index_witness:
  "hash_failed id 4 example_chunk fresh_transfer_list
     = (Some internal_error, example_chunk, fresh_transfer_list)"
  using hash_failed_unknown_index [of fresh_transfer_list 4 id example_chunk]
  by (simp add: fresh_transfer_list_def)

lemma reverse_max_element_nonempty:
  "fl_entries fl \<noteq> [] \<Longrightarrow> reverse_max_element fl \<noteq> None"
  by (cases "rev (map snd (fl_entries fl))") (auto simp: reverse_max_element_def)

lemma update_failed_block_ok:
  assumes "has_leader b"
  shows "\<exists>inc b'. update_failed_block c b = Inr (inc, b') \<and> has_entries b'"
proof -
  from assms obtain l where l: "leader b = Some l" "l < length (transfers b)"
    by (auto simp: has_leader_def split: option.splits)
  then show ?thesis
    by (auto simp: update_failed_block_def Let_def has_entries_def find_if_Nil)
qed

lemma update_failed_loop_ok:
  "\<forall>b \<in> set bs. has_leader b \<Longrightarrow>
     \<exists>p' bs'. update_failed_loop c p bs = (None, p', bs') \<and> length bs' = length bs
       \<and> (\<forall>b' \<in> set bs'. has_entries b')"
proof (induction bs arbitrary: p)
  case Nil
  show ?case by simp
next
  case (Cons b bs)
  then obtain inc b' where b': "update_failed_block c b = Inr (inc, b')" "has_entries b'"
    using update_failed_block_ok [of b c] by auto
  from Cons obtain p' bs' where
    "update_failed_loop c (if inc then p + 1 else p) bs = (None, p', bs')"
    "length bs' = length bs" "\<forall>b' \<in> set bs'. has_entries b'"
    by (metis list.set_intros(2))
  with b' show ?case by simp
qed

lemma retry_block_ok:
  assumes "has_entries b"
  shows "\<exists>c' b'. retry_block c b = Inr (c', b')"
proof -
  from assms obtain fl where fl: "failed_list b = Some fl" "fl_entries fl \<noteq> []"
    by (auto simp: has_entries_def split: option.splits)
  then obtain i where "reverse_max_element fl = Some i"
    using reverse_max_element_nonempty [of fl] by auto
  with fl show ?thesis
    by (simp add: retry_block_def)
qed

lemma retry_loop_ok:
  "\<forall>b \<in> set bs. has_entries b \<Longrightarrow>
     \<exists>c' bs'. retry_loop c bs = (None, c', bs') \<and> length bs' = length bs"
proof (induction bs arbitrary: c)
  case Nil
  show ?case by simp
next
  case (Cons b bs)
  then obtain c1 b' where b': "retry_block c b = Inr (c1, b')"
    using retry_block_ok [of b c] by auto
  from Cons obtain c' bs' where "retry_loop c1 bs = (None, c', bs')" "length bs' = length bs"
    by (metis list.set_intros(2))
  with b' show ?case by simp
qed

text \<open>
  Claim C1. Let \<^verbatim>\<open>hash_failed(index, chunk)\<close> be called for an index whose block list is
  in the transfer list (at position \<open>k\<close>), is not empty, has all its blocks finished and
  has \<^verbatim>\<open>attempt == 0\<close>, every block having a leader. Then \<^verbatim>\<open>update_failed\<close> returns a
  \<open>promoted\<close> for which the condition \<^verbatim>\<open>promoted > 0 || promoted < size\<close> is true, and the
  call returns normally after taking the retry path: \<^verbatim>\<open>attempt\<close> is 1, the failure
  counter is incremented, the block list stays in the list, and the only effect of the
  call is \<^verbatim>\<open>on_completed(index)\<close>, emitted by \<^verbatim>\<open>retry_most_popular\<close>; in particular
  \<^verbatim>\<open>do_all_failed\<close> is not called.
\<close>

theorem hash_failed_first_attempt_retries:
  assumes "find_tl idx tlist = k" and "k < length (block_lists tlist)"
    and "blocks (block_lists tlist ! k) \<noteq> []"
    and "all_finished (block_lists tlist ! k)"
    and "attempt (block_lists tlist ! k) = 0"
    and "\<forall>b \<in> set (blocks (block_lists tlist ! k)). has_leader b"
  shows "\<exists>promoted bl c' tlist'.
      update_failed (block_lists tlist ! k) c = (None, promoted, bl)
    \<and> (0 < promoted \<or> unat promoted < length (blocks bl))
    \<and> hash_failed daf idx c tlist = (None, c', tlist')
    \<and> length (block_lists tlist') = length (block_lists tlist)
    \<and> index (block_lists tlist' ! k) = idx
    \<and> attempt (block_lists tlist' ! k) = 1
    \<and> emitted tlist' = emitted tlist @ [slot_completed idx]
    \<and> m_failedCount tlist' = m_failedCount tlist + 1"
proof -
  let ?bl = "block_lists tlist ! k"
  have idx: "index ?bl = idx"
    using find_if_found(1) [of "\<lambda>b. idx = index b" "block_lists tlist"] assms(1,2)
    by (simp add: find_tl_def)
  obtain promoted bs where loop: "update_failed_loop c 0 (blocks ?bl) = (None, promoted, bs)"
    and len: "length bs = length (blocks ?bl)" and ent: "\<forall>b' \<in> set bs. has_entries b'"
    using update_failed_loop_ok [OF assms(6), of c 0] by auto
  define bl where "bl = ?bl\<lparr>failed := failed ?bl + 1, blocks := bs\<rparr>"
  have upd: "update_failed ?bl c = (None, promoted, bl)"
    by (simp add: update_failed_def loop bl_def)
  have cond: "0 < promoted \<or> unat promoted < length (blocks bl)"
  proof (cases "promoted = 0")
    case True
    then show ?thesis using assms(3) len by (simp add: bl_def)
  next
    case False
    then show ?thesis by (simp add: word_gt_0)
  qed
  obtain c' bs' where retry: "retry_loop c bs = (None, c', bs')" and len': "length bs' = length bs"
    using retry_loop_ok [OF ent, of c] by auto
  define bl' where "bl' = bl\<lparr>attempt := 1, blocks := bs'\<rparr>"
  have rmp: "retry_most_popular (bl\<lparr>attempt := 1\<rparr>) c = (None, c', bl', [slot_completed idx])"
    by (simp add: retry_most_popular_def retry bl_def bl'_def idx)
  define tlist' where "tlist' = emit [slot_completed idx]
      (store_block_list k bl' (tlist\<lparr>m_failedCount := m_failedCount tlist + 1\<rparr>))"
  have hf: "hash_failed daf idx c tlist = (None, c', tlist')"
    using assms(1,2,4,5) cond
    by (simp add: hash_failed_def Let_def upd rmp tlist'_def)
  have "length (block_lists tlist') = length (block_lists tlist)"
    and "index (block_lists tlist' ! k) = idx"
    and "attempt (block_lists tlist' ! k) = 1"
    and "emitted tlist' = emitted tlist @ [slot_completed idx]"
    and "m_failedCount tlist' = m_failedCount tlist + 1"
    using assms(2) by (simp_all add: tlist'_def emit_def store_block_list_def bl'_def bl_def idx)
  with upd cond hf show ?thesis by blast
qed

theorem hash_failed_first_attempt_retries_witness:
  "find_tl 3 fresh_transfer_list = 0
   \<and> fst (hash_failed id 3 example_chunk fresh_transfer_list) = None
   \<and> attempt (block_lists (snd (snd (hash_failed id 3 example_chunk fresh_transfer_list))) ! 0) = 1
   \<and> emitted (snd (snd (hash_failed id 3 example_chunk fresh_transfer_list))) = [slot_completed 3]"
proof -
  have k: "find_tl 3 fresh_transfer_list = 0"
    by (simp add: find_tl_def fresh_transfer_list_def find_if.simps)
  have "\<exists>promoted bl c' tlist'.
      update_failed (block_lists fresh_transfer_list ! 0) example_chunk = (None, promoted, bl)
    \<and> (0 < promoted \<or> unat promoted < length (blocks bl))
    \<and> hash_failed id 3 example_chunk fresh_transfer_list = (None, c', tlist')
    \<and> length (block_lists tlist') = length (block_lists fresh_transfer_list)
    \<and> index (block_lists tlist' ! 0) = 3
    \<and> attempt (block_lists tlist' ! 0) = 1
    \<and> emitted tlist' = emitted fresh_transfer_list @ [slot_completed 3]
    \<and> m_failedCount tlist' = m_failedCount fresh_transfer_list + 1"
    by (rule hash_failed_first_attempt_retries [OF k])
      (simp_all add: fresh_transfer_list_def fresh_block_def all_finished_def has_leader_def)
  then show ?thesis
    using k by (auto simp: fresh_transfer_list_def)
qed

lemma erase_old_keeps_last:
  "\<forall>j. clk j - from_minutes 30 \<le> fst v \<Longrightarrow>
     erase_old clk k (xs @ [v]) \<noteq> [] \<and> last (erase_old clk k (xs @ [v])) = v"
  by (induction xs arbitrary: k) auto

lemma push_completed_last:
  assumes "\<forall>j. clk j - from_minutes 30 \<le> clk 0"
  shows "push_completed clk idx cl \<noteq> [] \<and> last (push_completed clk idx cl) = (clk 0, idx)"
  using erase_old_keeps_last [of clk "(clk 0, idx)" 2 cl] assms
  by (simp add: push_completed_def Let_def)

lemma mark_block_total:
  "failed_list b \<noteq> None \<Longrightarrow> \<exists>bad' b'. mark_block c bad b = Inr (bad', b')"
  by (auto simp: mark_block_def Let_def)

lemma mark_loop_total:
  "\<forall>b \<in> set bs. failed_list b \<noteq> None \<Longrightarrow>
     \<exists>bad' bs'. mark_loop c bad bs = (None, bad', bs') \<and> length bs' = length bs"
proof (induction bs arbitrary: bad)
  case Nil
  show ?case by simp
next
  case (Cons b bs)
  then obtain bad1 b' where b': "mark_block c bad b = Inr (bad1, b')"
    using mark_block_total [of b c bad] by auto
  from Cons obtain bad' bs' where "mark_loop c bad1 bs = (None, bad', bs')" "length bs' = length bs"
    by (metis list.set_intros(2))
  with b' show ?case by simp
qed

lemma mark_failed_peers_total:
  assumes "\<forall>b \<in> set (blocks bl). failed_list b \<noteq> None"
  shows "\<exists>bl' es. mark_failed_peers bl c = (None, bl', es)"
proof -
  obtain bad' bs' where "mark_loop c [] (blocks bl) = (None, bad', bs')"
    using mark_loop_total [OF assms, of c "[]"] by auto
  then show ?thesis by (simp add: mark_failed_peers_def)
qed

lemma erased_index_gone:
  assumes "distinct (map index bls)" and "k < length bls"
  shows "\<forall>bl \<in> set (vector_erase k bls). index bl \<noteq> index (bls ! k)"
proof
  fix bl assume "bl \<in> set (vector_erase k bls)"
  then consider "bl \<in> set (take k bls)" | "bl \<in> set (drop (Suc k) bls)"
    by (auto simp: vector_erase_def)
  then obtain j where j: "j < length bls" "j \<noteq> k" "bl = bls ! j"
  proof cases
    case 1
    then obtain j where "j < length (take k bls)" "take k bls ! j = bl"
      by (auto simp: in_set_conv_nth)
    with assms(2) have "j < length bls" "j \<noteq> k" "bl = bls ! j" by auto
    then show ?thesis by (rule that)
  next
    case 2
    then obtain j where "j < length (drop (Suc k) bls)" "drop (Suc k) bls ! j = bl"
      by (auto simp: in_set_conv_nth)
    with assms(2) have "Suc k + j < length bls" "Suc k + j \<noteq> k" "bl = bls ! (Suc k + j)" by auto
    then show ?thesis by (rule that)
  qed
  have "(map index bls ! j = map index bls ! k) = (j = k)"
    using assms j by (intro nth_eq_iff_index_eq) simp_all
  with j assms(2) show "index bl \<noteq> index (bls ! k)" by simp
qed

text \<open>
  Claim C4 says that after every call of \<^verbatim>\<open>hash_succeeded(i, chunk)\<close> for a present index
  with all blocks finished the last entry of \<^verbatim>\<open>completedList\<close> is the pair of the current
  time and \<open>i\<close>. The function reads the clock for the entry it pushes, again for the test
  of the front entry against 60 minutes, and again for every entry it tests against 30
  minutes, the new entry being the last of them. With a clock that shows 0 at the first
  reading and 61 minutes afterwards, on the list with the one piece 3 that has not
  failed, the call returns normally, erases the block list and increments
  \<^verbatim>\<open>succeededCount\<close>, and it prunes the entry it has just pushed: \<^verbatim>\<open>completedList\<close> is
  empty on return.
\<close>

theorem hash_succeeded_prunes_new_entry:
  "find_tl 3 fresh_transfer_list = 0
   \<and> all_finished (block_lists fresh_transfer_list ! 0)
   \<and> distinct (map index (block_lists fresh_transfer_list))
   \<and> failed (block_lists fresh_transfer_list ! 0) = 0
   \<and> fst (hash_succeeded held_up_clock 3 example_chunk fresh_transfer_list) = None
   \<and> block_lists (snd (hash_succeeded held_up_clock 3 example_chunk fresh_transfer_list)) = []
   \<and> m_succeededCount (snd (hash_succeeded held_up_clock 3 example_chunk fresh_transfer_list)) = 1
   \<and> m_completedList (snd (hash_succeeded held_up_clock 3 example_chunk fresh_transfer_list)) = []"
proof -
  have k: "find_tl 3 fresh_transfer_list = 0"
    by (simp add: find_tl_def fresh_transfer_list_def find_if.simps)
  have fin: "all_finished (block_lists fresh_transfer_list ! 0)"
    by (simp add: fresh_transfer_list_def all_finished_def fresh_block_def)
  have pushed: "push_completed held_up_clock 3 [] = []"
    by (simp add: push_completed_def held_up_clock_def from_minutes_def Let_def)
  have old: "m_completedList (emit [] (store_block_list 0 (block_lists fresh_transfer_list ! 0)
      fresh_transfer_list)) = []"
    by (simp add: fresh_transfer_list_def emit_def store_block_list_def)
  have "hash_succeeded held_up_clock 3 example_chunk fresh_transfer_list
      = (None, fresh_transfer_list\<lparr>m_succeededCount := 1, block_lists := []\<rparr>)"
    using fin by (simp add: hash_succeeded_def k Let_def old pushed)
      (simp add: fresh_transfer_list_def emit_def store_block_list_def vector_erase_def)
  then show ?thesis
    using k fin by (simp add: fresh_transfer_list_def)
qed

text \<open>
  Claim C4, amended. Let \<^verbatim>\<open>hash_succeeded(i, chunk)\<close> be called for an index \<open>i\<close> whose
  block list is in the transfer list (at position \<open>k\<close>, the indices of the list being
  distinct) and has all its blocks finished; if the piece has failed before, every
  block has its failed list; and no reading of the clock during the call is more than
  30 minutes later than the first one. Then the call returns normally, the block list
  at \<open>k\<close> is erased and no block list for \<open>i\<close> is left, \<^verbatim>\<open>succeededCount\<close> is incremented by
  one, and the last entry of \<^verbatim>\<open>completedList\<close> is the pair of the first clock reading, in
  microseconds, and \<open>i\<close>.
\<close>

theorem hash_succeeded_completes:
  assumes "find_tl idx tlist = k" and "k < length (block_lists tlist)"
    and "distinct (map index (block_lists tlist))"
    and "all_finished (block_lists tlist ! k)"
    and "failed (block_lists tlist ! k) \<noteq> 0 \<longrightarrow>
           (\<forall>b \<in> set (blocks (block_lists tlist ! k)). failed_list b \<noteq> None)"
    and "\<forall>j. clk j - from_minutes 30 \<le> clk 0"
  shows "\<exists>tlist'. hash_succeeded clk idx c tlist = (None, tlist')
    \<and> block_lists tlist' = take k (block_lists tlist) @ drop (Suc k) (block_lists tlist)
    \<and> find_tl idx tlist' = length (block_lists tlist')
    \<and> m_succeededCount tlist' = m_succeededCount tlist + 1
    \<and> m_completedList tlist' \<noteq> []
    \<and> last (m_completedList tlist') = (clk 0, idx)"
proof -
  let ?bl = "block_lists tlist ! k"
  have idx: "index ?bl = idx"
    using find_if_found(1) [of "\<lambda>b. idx = index b" "block_lists tlist"] assms(1,2)
    by (simp add: find_tl_def)
  obtain bl' es where mark:
    "(if failed ?bl \<noteq> 0 then mark_failed_peers ?bl c else (None, ?bl, [])) = (None, bl', es)"
    using mark_failed_peers_total [of ?bl c] assms(5) by (cases "failed ?bl = 0") auto
  define tlist' where "tlist' =
    (emit es (store_block_list k bl' tlist))
      \<lparr>m_completedList := push_completed clk idx (m_completedList tlist),
       m_succeededCount := m_succeededCount tlist + 1,
       block_lists := vector_erase k ((block_lists tlist)[k := bl'])\<rparr>"
  have hs: "hash_succeeded clk idx c tlist = (None, tlist')"
    using assms(1,2,4)
    by (simp add: hash_succeeded_def Let_def mark tlist'_def emit_def store_block_list_def)
  have bls: "block_lists tlist' = take k (block_lists tlist) @ drop (Suc k) (block_lists tlist)"
    by (simp add: tlist'_def vector_erase_def)
  have gone: "find_tl idx tlist' = length (block_lists tlist')"
    unfolding find_tl_def find_if_end_iff bls
    using erased_index_gone [OF assms(3,2)] idx by (auto simp: vector_erase_def)
  have "m_succeededCount tlist' = m_succeededCount tlist + 1"
    and "m_completedList tlist' \<noteq> []"
    and "last (m_completedList tlist') = (clk 0, idx)"
    using push_completed_last [OF assms(6), of idx "m_completedList tlist"]
    by (simp_all add: tlist'_def)
  with hs bls gone show ?thesis by blast
qed

theorem hash_succeeded_completes_witness:
  "find_tl 3 retried_transfer_list = 0
   \<and> fst (hash_succeeded (\<lambda>k. 1000) 3 example_chunk retried_transfer_list) = None
   \<and> block_lists (snd (hash_succeeded (\<lambda>k. 1000) 3 example_chunk retried_transfer_list)) = []
   \<and> m_succeededCount (snd (hash_succeeded (\<lambda>k. 1000) 3 example_chunk retried_transfer_list)) = 1
   \<and> last (m_completedList (snd (hash_succeeded (\<lambda>k. 1000) 3 example_chunk
        retried_transfer_list))) = (1000, 3)"
proof -
  have k: "find_tl 3 retried_transfer_list = 0"
    by (simp add: find_tl_def retried_transfer_list_def find_if.simps)
  have "\<exists>tlist'. hash_succeeded (\<lambda>k. 1000) 3 example_chunk retried_transfer_list = (None, tlist')
    \<and> block_lists tlist' = take 0 (block_lists retried_transfer_list)
        @ drop (Suc 0) (block_lists retried_transfer_list)
    \<and> find_tl 3 tlist' = length (block_lists tlist')
    \<and> m_succeededCount tlist' = m_succeededCount retried_transfer_list + 1
    \<and> m_completedList tlist' \<noteq> []
    \<and> last (m_completedList tlist') = ((\<lambda>k. 1000) 0, 3)"
    by (rule hash_succeeded_completes [OF k])
      (simp_all add: retried_transfer_list_def all_finished_def from_minutes_def)
  then show ?thesis
    using k by (auto simp: retried_transfer_list_def)
qed

lemma points_to_good_entry_find_if:
  assumes "failed_list b = Some fl"
  shows "points_to_good_entry c b i \<longleftrightarrow> i = find_if (matches c (blk_piece b)) (fl_entries fl) 0"
proof (cases "list_ex (matches c (blk_piece b)) (fl_entries fl)")
  case False
  then have "find_if (matches c (blk_piece b)) (fl_entries fl) 0 = length (fl_entries fl)"
    by (simp add: find_if_end_iff list_ex_iff)
  with False assms show ?thesis
    by (simp add: points_to_good_entry_def)
next
  case True
  let ?p = "matches c (blk_piece b)" and ?es = "fl_entries fl"
  let ?f = "find_if ?p ?es 0"
  have "?f \<noteq> length ?es"
    using True by (simp add: find_if_end_iff list_ex_iff)
  moreover have "?f \<le> length ?es"
    by (rule find_if_le) simp
  ultimately have lt: "?f < length ?es" by simp
  note found = find_if_found [OF lt]
  have "i = ?f" if "i < length ?es" "?p (?es ! i)" "\<forall>j < i. \<not> ?p (?es ! j)"
    using that found by (meson linorder_neqE_nat)
  then show ?thesis
    using True assms lt found
    by (auto simp: points_to_good_entry_def list_all_iff)
qed

lemma foldl_bad_peers_set:
  "set (foldl (\<lambda>s t. if P t then insort_insert (g t) s else s) s ts)
     = set s \<union> g ` {t \<in> set ts. P t}"
  for g :: "'a \<Rightarrow> nat"
  by (induction ts arbitrary: s) (auto simp: set_insort_insert)

lemma foldl_bad_peers_sorted:
  "sorted s \<Longrightarrow> sorted (foldl (\<lambda>s t. if P t then insort_insert (g t) s else s) s ts)"
  for g :: "'a \<Rightarrow> nat"
  by (induction ts arbitrary: s) (auto simp: sorted_insort_insert)

lemma foldl_bad_peers_distinct:
  "distinct s \<Longrightarrow> distinct (foldl (\<lambda>s t. if P t then insort_insert (g t) s else s) s ts)"
  for g :: "'a \<Rightarrow> nat"
  by (induction ts arbitrary: s) (auto simp: distinct_insort_insert)

lemma mark_block_bad:
  assumes "failed_list b \<noteq> None"
  shows "\<exists>bad' b'. mark_block c bad b = Inr (bad', b')
    \<and> set bad' = set bad \<union> bad_of_block c b
    \<and> (distinct bad \<longrightarrow> distinct bad') \<and> (sorted bad \<longrightarrow> sorted bad')"
proof -
  from assms obtain fl where fl: "failed_list b = Some fl" by auto
  have bad: "is_bad_transfer (find_if (matches c (blk_piece b)) (fl_entries fl) 0) t
      \<longleftrightarrow> failed_index t \<noteq> - 1 \<and> \<not> points_to_good_entry c b (unat (failed_index t))" for t
    by (auto simp: is_bad_transfer_def points_to_good_entry_find_if [OF fl])
  define f where "f = (\<lambda>s t. if is_bad_transfer
      (find_if (matches c (blk_piece b)) (fl_entries fl) 0) t
      then insort_insert (peer_info t) s else s)"
  have mb: "mark_block c bad b = Inr (foldl f bad (transfers b),
      b\<lparr>failed_list := Some (fl\<lparr>fl_current :=
        find_if (matches c (blk_piece b)) (fl_entries fl) 0\<rparr>)\<rparr>)"
    by (simp add: mark_block_def fl Let_def f_def)
  have "set (foldl f bad (transfers b)) = set bad \<union> bad_of_block c b"
    unfolding f_def foldl_bad_peers_set by (auto simp: bad bad_of_block_def)
  moreover have "distinct bad \<Longrightarrow> distinct (foldl f bad (transfers b))"
    unfolding f_def by (rule foldl_bad_peers_distinct)
  moreover have "sorted bad \<Longrightarrow> sorted (foldl f bad (transfers b))"
    unfolding f_def by (rule foldl_bad_peers_sorted)
  ultimately show ?thesis
    using mb by blast
qed

lemma mark_loop_bad:
  "\<forall>b \<in> set bs. failed_list b \<noteq> None \<Longrightarrow>
     \<exists>bad' bs'. mark_loop c bad bs = (None, bad', bs')
       \<and> set bad' = set bad \<union> (\<Union>b \<in> set bs. bad_of_block c b)
       \<and> (distinct bad \<longrightarrow> distinct bad') \<and> (sorted bad \<longrightarrow> sorted bad')"
proof (induction bs arbitrary: bad)
  case Nil
  show ?case by simp
next
  case (Cons b bs)
  then obtain bad1 b' where b': "mark_block c bad b = Inr (bad1, b')"
    "set bad1 = set bad \<union> bad_of_block c b"
    "distinct bad \<longrightarrow> distinct bad1" "sorted bad \<longrightarrow> sorted bad1"
    using mark_block_bad [of b c bad] by auto
  from Cons obtain bad' bs' where "mark_loop c bad1 bs = (None, bad', bs')"
    "set bad' = set bad1 \<union> (\<Union>b \<in> set bs. bad_of_block c b)"
    "distinct bad1 \<longrightarrow> distinct bad'" "sorted bad1 \<longrightarrow> sorted bad'"
    by (metis list.set_intros(2))
  with b' show ?case by auto
qed

text \<open>
  Claim C3. Let \<^verbatim>\<open>hash_succeeded(index, chunk)\<close> be called for an index whose block list
  is in the transfer list (at position \<open>k\<close>), has all its blocks finished and a failure
  counter that is not zero, every block having its failed list. Then the call returns
  normally and what it emits is \<^verbatim>\<open>on_corrupt(peer)\<close> for the peers of a list without
  repetition, so once for each, whose members are exactly the peers that have a
  transfer, in some block of the list, whose \<^verbatim>\<open>failed_index\<close> is set (is not
  \<^verbatim>\<open>~uint32_t()\<close>) and does not point to the entry of the block's failed list that holds
  the chunk's bytes.
\<close>

theorem hash_succeeded_reports_bad_peers:
  assumes "find_tl idx tlist = k" and "k < length (block_lists tlist)"
    and "all_finished (block_lists tlist ! k)"
    and "failed (block_lists tlist ! k) \<noteq> 0"
    and "\<forall>b \<in> set (blocks (block_lists tlist ! k)). failed_list b \<noteq> None"
  shows "\<exists>badPeers tlist'. hash_succeeded clk idx c tlist = (None, tlist')
    \<and> emitted tlist' = emitted tlist @ map slot_corrupt badPeers
    \<and> distinct badPeers
    \<and> set badPeers = sent_bad_data c (block_lists tlist ! k)"
proof -
  let ?bl = "block_lists tlist ! k"
  obtain bad bs where loop: "mark_loop c [] (blocks ?bl) = (None, bad, bs)"
    and set: "set bad = (\<Union>b \<in> set (blocks ?bl). bad_of_block c b)" and dist: "distinct bad"
    using mark_loop_bad [OF assms(5), of c "[]"] by auto
  have mark: "mark_failed_peers ?bl c = (None, ?bl\<lparr>blocks := bs\<rparr>, map slot_corrupt bad)"
    by (simp add: mark_failed_peers_def loop)
  define tlist' where "tlist' =
    (emit (map slot_corrupt bad) (store_block_list k (?bl\<lparr>blocks := bs\<rparr>) tlist))
      \<lparr>m_completedList := push_completed clk idx (m_completedList tlist),
       m_succeededCount := m_succeededCount tlist + 1,
       block_lists := vector_erase k ((block_lists tlist)[k := ?bl\<lparr>blocks := bs\<rparr>])\<rparr>"
  have hs: "hash_succeeded clk idx c tlist = (None, tlist')"
    using assms(1-4)
    by (simp add: hash_succeeded_def Let_def mark tlist'_def emit_def store_block_list_def)
  have em: "emitted tlist' = emitted tlist @ map slot_corrupt bad"
    by (simp add: tlist'_def emit_def store_block_list_def)
  have "set bad = sent_bad_data c ?bl"
    by (simp add: set sent_bad_data_def)
  with hs em dist show ?thesis by blast
qed

theorem hash_succeeded_reports_bad_peers_witness:
  "find_tl 3 retried_transfer_list = 0
   \<and> sent_bad_data example_chunk (block_lists retried_transfer_list ! 0) = {2}
   \<and> emitted (snd (hash_succeeded (\<lambda>k. 1000) 3 example_chunk retried_transfer_list))
       = [slot_corrupt 2]"
proof -
  have k: "find_tl 3 retried_transfer_list = 0"
    by (simp add: find_tl_def retried_transfer_list_def find_if.simps)
  have bad: "sent_bad_data example_chunk (block_lists retried_transfer_list ! 0) = {2}"
    by (simp add: sent_bad_data_def bad_of_block_def retried_transfer_list_def
        example_chunk_def points_to_good_entry_def matches_def compare_buffer_def
        del: set_filter)
  have "\<exists>badPeers tlist'.
      hash_succeeded (\<lambda>k. 1000) 3 example_chunk retried_transfer_list = (None, tlist')
    \<and> emitted tlist' = emitted retried_transfer_list @ map slot_corrupt badPeers
    \<and> distinct badPeers
    \<and> set badPeers = sent_bad_data example_chunk (block_lists retried_transfer_list ! 0)"
    by (rule hash_succeeded_reports_bad_peers [OF k])
      (simp_all add: retried_transfer_list_def all_finished_def)
  then obtain badPeers tlist' where
    hs: "hash_succeeded (\<lambda>k. 1000) 3 example_chunk retried_transfer_list = (None, tlist')"
    and em: "emitted tlist' = emitted retried_transfer_list @ map slot_corrupt badPeers"
    and d: "distinct badPeers" and s: "set badPeers = {2}"
    using bad by auto
  from d s have "badPeers = [2]"
    by (metis distinct.simps(2) distinct_singleton empty_set insert_iff list.exhaust
        list.simps(15) set_ConsD singleton_iff)
  with hs em k bad show ?thesis
    by (simp add: retried_transfer_list_def)
qed

end
